theory Spec2Isabelle
  imports Complex_Main "HOL-Library.Multiset"
begin

section \<open>Problems and nodes\<close>

text \<open>
  The exceptions the notebook's code can raise: \<open>NotImplementedError\<close> from the abstract
  methods of \<open>Problem\<close>, \<open>KeyError\<close> from a dictionary subscript or from \<open>set.remove\<close>,
  \<open>AttributeError\<close> from reading an attribute an object does not have, \<open>IndexError\<close>
  from popping an empty heap.
\<close>

datatype error = NotImplementedError | KeyError | AttributeError | IndexError

text \<open>
  A problem is the object the search functions receive: the two fields set by
  \<open>Problem.__init__\<close> and its four methods. A method that can raise returns a sum.
  Costs are Python numbers (\<open>int\<close> and \<open>float\<close> mix in \<open>a_star_search\<close>) and are modelled
  as reals; rounding of floats is not modelled.
\<close>

record ('s, 'a) problem =
  initial :: 's
  goal :: "'s option"
  actions :: "'s \<Rightarrow> error + 'a list"
  result :: "'s \<Rightarrow> 'a \<Rightarrow> error + 's"
  goal_test :: "'s \<Rightarrow> bool"
  path_cost :: "real \<Rightarrow> 's \<Rightarrow> 'a option \<Rightarrow> 's \<Rightarrow> error + real"

text \<open>The base class \<open>Problem\<close>: \<open>actions\<close> and \<open>result\<close> raise, \<open>goal_test\<close> compares
  with the goal, \<open>path_cost\<close> adds one. States are values other than \<open>None\<close>, so with no
  goal configured no state passes the goal test.\<close>

definition Problem :: "'s \<Rightarrow> 's option \<Rightarrow> ('s, 'a) problem" where
  "Problem init g =
     \<lparr> initial = init, goal = g,
       actions = (\<lambda>state. Inl NotImplementedError),
       result = (\<lambda>state action. Inl NotImplementedError),
       goal_test = (\<lambda>state. Some state = g),
       path_cost = (\<lambda>c state1 action state2. Inr (c + 1)) \<rparr>"

text \<open>
  A node as \<open>Node.__init__\<close> stores it. The keyword calls of the search functions fill
  \<open>action\<close> with the neighbour and \<open>parent\<close> with the popped node.
\<close>

datatype ('s, 'a) node =
  Node (state: 's) (action: "'a option") (parent: "('s, 'a) node option") (cost: real)

text \<open>
  \<open>Node.child_node\<close> calls the constructor positionally as
  \<open>Node(next_state, self, action, cost)\<close>, while the parameters are
  \<open>(state, action, parent, path_cost)\<close>: the object it would build has the node in its
  \<open>action\<close> field and the action in its \<open>parent\<close> field.
\<close>

datatype ('s, 'a) positional_node =
  PositionalNode (pstate: 's) (paction: "('s, 'a) node") (pparent: 'a) (pcost: real)

text \<open>
  Reading a numeric attribute of a node by name. \<open>__init__\<close> stores its \<open>path_cost\<close>
  argument under the name \<open>cost\<close>; the instance has no attribute \<open>path_cost\<close>.
\<close>

definition node_getattr :: "('s, 'a) node \<Rightarrow> string \<Rightarrow> error + real" where
  "node_getattr n name = (if name = ''cost'' then Inr (cost n) else Inl AttributeError)"

definition child_node ::
  "('s, 'a) node \<Rightarrow> ('s, 'a) problem \<Rightarrow> 'a \<Rightarrow> error + ('s, 'a) positional_node" where
  "child_node self p act =
     (case result p (state self) act of
        Inl e \<Rightarrow> Inl e
      | Inr next_state \<Rightarrow>
          (case node_getattr self ''path_cost'' of
             Inl e \<Rightarrow> Inl e
           | Inr c0 \<Rightarrow>
               (case path_cost p c0 (state self) (Some act) next_state of
                  Inl e \<Rightarrow> Inl e
                | Inr c \<Rightarrow> Inr (PositionalNode next_state self act c))))"

fun child_nodes ::
  "('s, 'a) node \<Rightarrow> ('s, 'a) problem \<Rightarrow> 'a list \<Rightarrow> error + ('s, 'a) positional_node list" where
  "child_nodes self p [] = Inr []"
| "child_nodes self p (act # acts) =
     (case child_node self p act of
        Inl e \<Rightarrow> Inl e
      | Inr c \<Rightarrow> (case child_nodes self p acts of Inl e \<Rightarrow> Inl e | Inr cs \<Rightarrow> Inr (c # cs)))"

definition expand ::
  "('s, 'a) node \<Rightarrow> ('s, 'a) problem \<Rightarrow> error + ('s, 'a) positional_node list" where
  "expand self p =
     (case actions p (state self) of
        Inl e \<Rightarrow> Inl e
      | Inr acts \<Rightarrow> child_nodes self p acts)"

text \<open>\<open>Node.path\<close>: the nodes from the root to this one, following \<open>parent\<close>.\<close>

fun path_back :: "('s, 'a) node \<Rightarrow> ('s, 'a) node list" where
  "path_back (Node s a None c) = [Node s a None c]"
| "path_back (Node s a (Some par) c) = Node s a (Some par) c # path_back par"

definition path :: "('s, 'a) node \<Rightarrow> ('s, 'a) node list" where
  "path n = rev (path_back n)"

section \<open>The road map example\<close>

text \<open>
  A Python dictionary literal with distinct keys, in insertion order, is an association
  list; a subscript of a missing key raises \<open>KeyError\<close>.
\<close>

definition subscript :: "('k \<times> 'v) list \<Rightarrow> 'k \<Rightarrow> error + 'v" where
  "subscript d k = (case map_of d k of None \<Rightarrow> Inl KeyError | Some v \<Rightarrow> Inr v)"

type_synonym 's graph = "('s \<times> ('s \<times> real) list) list"

definition romania_map :: "string graph" where
  "romania_map =
    [(''Arad'', [(''Zerind'', 75), (''Sibiu'', 140), (''Timisoara'', 118)]),
     (''Zerind'', [(''Arad'', 75), (''Oradea'', 71)]),
     (''Sibiu'', [(''Arad'', 140), (''Fagaras'', 99), (''Oradea'', 151), (''Rimnicu'', 80)]),
     (''Timisoara'', [(''Arad'', 118), (''Lugoj'', 111)]),
     (''Bucharest'', [(''Urziceni'', 85), (''Pitesti'', 101), (''Giurgiu'', 90), (''Fagaras'', 211)]),
     (''Urziceni'', [(''Bucharest'', 85), (''Hirsova'', 98), (''Vaslui'', 142)]),
     (''Pitesti'', [(''Bucharest'', 101), (''Craiova'', 138), (''Rimnicu'', 97)]),
     (''Giurgiu'', [(''Bucharest'', 90)]),
     (''Fagaras'', [(''Bucharest'', 211), (''Sibiu'', 99)]),
     (''Craiova'', [(''Drobeta'', 120), (''Rimnicu'', 146), (''Pitesti'', 138)]),
     (''Drobeta'', [(''Craiova'', 120), (''Mehadia'', 75)]),
     (''Rimnicu'', [(''Craiova'', 146), (''Pitesti'', 97), (''Sibiu'', 80)]),
     (''Mehadia'', [(''Drobeta'', 75), (''Lugoj'', 70)]),
     (''Eforie'', [(''Hirsova'', 86)]),
     (''Hirsova'', [(''Eforie'', 86), (''Urziceni'', 98)]),
     (''Iasi'', [(''Vaslui'', 92), (''Neamt'', 87)]),
     (''Vaslui'', [(''Iasi'', 92), (''Urziceni'', 142)]),
     (''Neamt'', [(''Iasi'', 87)]),
     (''Lugoj'', [(''Timisoara'', 111), (''Mehadia'', 70)]),
     (''Oradea'', [(''Zerind'', 71), (''Sibiu'', 151)])]"

text \<open>
  \<open>PathFinder\<close> overrides \<open>actions\<close> (the keys of \<open>graph[state]\<close>, in order), \<open>result\<close>
  (the action is the city reached) and \<open>path_cost\<close> (adds \<open>graph[state1][state2]\<close>).
\<close>

definition PathFinder :: "'s \<Rightarrow> 's \<Rightarrow> 's graph \<Rightarrow> ('s, 's) problem" where
  "PathFinder init g graph =
     \<lparr> initial = init, goal = Some g,
       actions = (\<lambda>state.
         case subscript graph state of Inl e \<Rightarrow> Inl e | Inr nbrs \<Rightarrow> Inr (map fst nbrs)),
       result = (\<lambda>state action. Inr action),
       goal_test = (\<lambda>state. Some state = Some g),
       path_cost = (\<lambda>c state1 action state2.
         case subscript graph state1 of
           Inl e \<Rightarrow> Inl e
         | Inr nbrs \<Rightarrow> (case subscript nbrs state2 of Inl e \<Rightarrow> Inl e | Inr w \<Rightarrow> Inr (c + w))) \<rparr>"

section \<open>The search loops\<close>

text \<open>
  An element of \<open>frontier_states\<close>: the breadth-first and depth-first searches store
  bare states, the cost-ordered searches store \<open>(state, cost)\<close> tuples. States are taken
  to be values that are not themselves such tuples (the city names of the example are
  strings), so a bare state is never equal to a tuple.
\<close>

datatype 's member = Bare 's | Tuple 's real

record 's config =
  frontier :: "('s, 's) node list"
  frontier_states :: "'s member set"
  explored :: "'s set"

text \<open>What one iteration of a \<open>while frontier:\<close> loop does: return a node, or go on.\<close>

datatype 's step = Return "('s, 's) node" | Continue "'s config"

text \<open>
  The loop \<open>while frontier: ...; return None\<close> around a body. A run that never leaves the
  loop has the value \<open>None\<close>; \<open>Some (Inr None)\<close> is the function returning Python's
  \<open>None\<close>, \<open>Some (Inr (Some n))\<close> is it returning the node \<open>n\<close>, \<open>Some (Inl e)\<close> is it
  raising \<open>e\<close>.
\<close>

partial_function (option) while_frontier ::
  "('s config \<Rightarrow> error + 's step) \<Rightarrow> 's config \<Rightarrow> (error + ('s, 's) node option) option" where
  "while_frontier body c =
     (if frontier c = [] then Some (Inr None)
      else (case body c of
              Inl e \<Rightarrow> Some (Inl e)
            | Inr (Return n) \<Rightarrow> Some (Inr (Some n))
            | Inr (Continue c') \<Rightarrow> while_frontier body c'))"

declare while_frontier.simps [code]

text \<open>
  The three containers before the loop: \<open>frontier\<close> holds the root node,
  \<open>frontier_states\<close> holds \<open>problem.initial\<close> (breadth-first, depth-first) or the tuple
  \<open>(problem.initial, 0)\<close> (uniform-cost, A*), \<open>explored\<close> is empty.
\<close>

definition init_states :: "('s, 's) problem \<Rightarrow> 's config" where
  "init_states p =
     \<lparr>frontier = [Node (initial p) None None 0],
      frontier_states = {Bare (initial p)},
      explored = {}\<rparr>"

definition init_pairs :: "('s, 's) problem \<Rightarrow> 's config" where
  "init_pairs p =
     \<lparr>frontier = [Node (initial p) None None 0],
      frontier_states = {Tuple (initial p) 0},
      explored = {}\<rparr>"

text \<open>The configuration at the loop test after \<open>k\<close> full iterations, if the loop gets
  that far.\<close>

fun after_iterations ::
  "nat \<Rightarrow> ('s config \<Rightarrow> error + 's step) \<Rightarrow> 's config \<Rightarrow> 's config option" where
  "after_iterations 0 body c = Some c"
| "after_iterations (Suc k) body c =
     (if frontier c = [] then None
      else (case body c of
              Inr (Continue c') \<Rightarrow> after_iterations k body c'
            | _ \<Rightarrow> None))"

subsection \<open>Breadth-first search\<close>

text \<open>The \<open>for neighbor in problem.actions(node.state)\<close> loop; \<open>appendleft\<close> is \<open>#\<close>.\<close>

fun bfs_neighbors ::
  "('s, 's) problem \<Rightarrow> ('s, 's) node \<Rightarrow> 's list \<Rightarrow> 's config \<Rightarrow> error + 's config" where
  "bfs_neighbors p node [] c = Inr c"
| "bfs_neighbors p node (neighbor # rest) c =
     (if neighbor \<notin> explored c \<and> Bare neighbor \<notin> frontier_states c then
        (case path_cost p (cost node) (state node) None neighbor of
           Inl e \<Rightarrow> Inl e
         | Inr pc \<Rightarrow>
             bfs_neighbors p node rest
               (c\<lparr>frontier := Node neighbor (Some neighbor) (Some node) pc # frontier c,
                  frontier_states := insert (Bare neighbor) (frontier_states c)\<rparr>))
      else bfs_neighbors p node rest c)"

text \<open>The loop body; \<open>deque.pop\<close> takes the right end.\<close>

definition bfs_body :: "('s, 's) problem \<Rightarrow> 's config \<Rightarrow> error + 's step" where
  "bfs_body p c =
     (let node = last (frontier c);
          c1 = c\<lparr>frontier := butlast (frontier c),
                 explored := insert (state node) (explored c)\<rparr>
      in if Bare (state node) \<notin> frontier_states c1 then Inl KeyError
         else
           (let c2 = c1\<lparr>frontier_states := frontier_states c1 - {Bare (state node)}\<rparr>
            in if goal_test p (state node) then Inr (Return node)
               else (case actions p (state node) of
                       Inl e \<Rightarrow> Inl e
                     | Inr neighbors \<Rightarrow>
                         (case bfs_neighbors p node neighbors c2 of
                            Inl e \<Rightarrow> Inl e
                          | Inr c3 \<Rightarrow> Inr (Continue c3)))))"

definition breadth_first_graph_search ::
  "('s, 's) problem \<Rightarrow> (error + ('s, 's) node option) option" where
  "breadth_first_graph_search p =
     while_frontier (bfs_body p) (init_states p)"

subsection \<open>Depth-first search\<close>

text \<open>As above, with \<open>list.append\<close> in place of \<open>appendleft\<close>.\<close>

fun dfs_neighbors ::
  "('s, 's) problem \<Rightarrow> ('s, 's) node \<Rightarrow> 's list \<Rightarrow> 's config \<Rightarrow> error + 's config" where
  "dfs_neighbors p node [] c = Inr c"
| "dfs_neighbors p node (neighbor # rest) c =
     (if neighbor \<notin> explored c \<and> Bare neighbor \<notin> frontier_states c then
        (case path_cost p (cost node) (state node) None neighbor of
           Inl e \<Rightarrow> Inl e
         | Inr pc \<Rightarrow>
             dfs_neighbors p node rest
               (c\<lparr>frontier := frontier c @ [Node neighbor (Some neighbor) (Some node) pc],
                  frontier_states := insert (Bare neighbor) (frontier_states c)\<rparr>))
      else dfs_neighbors p node rest c)"

definition dfs_body :: "('s, 's) problem \<Rightarrow> 's config \<Rightarrow> error + 's step" where
  "dfs_body p c =
     (let node = last (frontier c);
          c1 = c\<lparr>frontier := butlast (frontier c),
                 explored := insert (state node) (explored c)\<rparr>
      in if Bare (state node) \<notin> frontier_states c1 then Inl KeyError
         else
           (let c2 = c1\<lparr>frontier_states := frontier_states c1 - {Bare (state node)}\<rparr>
            in if goal_test p (state node) then Inr (Return node)
               else (case actions p (state node) of
                       Inl e \<Rightarrow> Inl e
                     | Inr neighbors \<Rightarrow>
                         (case dfs_neighbors p node neighbors c2 of
                            Inl e \<Rightarrow> Inl e
                          | Inr c3 \<Rightarrow> Inr (Continue c3)))))"

definition depth_first_graph_search ::
  "('s, 's) problem \<Rightarrow> (error + ('s, 's) node option) option" where
  "depth_first_graph_search p =
     while_frontier (dfs_body p) (init_states p)"

subsection \<open>The binary heap of \<open>heapq\<close>\<close>

text \<open>
  \<open>Node.__lt__\<close> compares the \<open>cost\<close> fields; it is the only comparison \<open>heapq\<close> uses.
\<close>

definition node_lt :: "('s, 'a) node \<Rightarrow> ('s, 'a) node \<Rightarrow> bool" where
  "node_lt self other = (cost self < cost other)"

text \<open>
  \<open>heapq\<close> is the Python standard library's, on a list: \<open>_siftdown(heap, startpos, pos)\<close>
  moves the item at \<open>pos\<close> towards the root while it is smaller than its parent,
  \<open>_siftup(heap, pos)\<close> moves the smaller child up until a leaf is reached and then sifts
  the item down from there. The loops carry \<open>newitem\<close> and write it at the end.
\<close>

function siftdown_loop ::
  "('s, 'a) node list \<Rightarrow> ('s, 'a) node \<Rightarrow> nat \<Rightarrow> nat \<Rightarrow> ('s, 'a) node list" where
  "siftdown_loop heap newitem startpos pos =
     (if pos > startpos then
        (let parentpos = (pos - 1) div 2;
             par = heap ! parentpos
         in if node_lt newitem par
            then siftdown_loop (heap[pos := par]) newitem startpos parentpos
            else heap[pos := newitem])
      else heap[pos := newitem])"
  by pat_completeness auto
termination
  by (relation "measure (\<lambda>(heap, newitem, startpos, pos). pos)") auto

definition siftdown :: "('s, 'a) node list \<Rightarrow> nat \<Rightarrow> nat \<Rightarrow> ('s, 'a) node list" where
  "siftdown heap startpos pos = siftdown_loop heap (heap ! pos) startpos pos"

function siftup_loop ::
  "('s, 'a) node list \<Rightarrow> nat \<Rightarrow> nat \<Rightarrow> ('s, 'a) node list \<times> nat" where
  "siftup_loop heap endpos pos =
     (let childpos = 2 * pos + 1
      in if childpos < endpos then
           (let rightpos = childpos + 1;
                childpos' = (if rightpos < endpos
                                \<and> \<not> node_lt (heap ! childpos) (heap ! rightpos)
                             then rightpos else childpos)
            in siftup_loop (heap[pos := heap ! childpos']) endpos childpos')
         else (heap, pos))"
  by pat_completeness auto
termination
  by (relation "measure (\<lambda>(heap, endpos, pos). endpos - pos)") auto

definition siftup :: "('s, 'a) node list \<Rightarrow> nat \<Rightarrow> ('s, 'a) node list" where
  "siftup heap pos =
     (let endpos = length heap;
          startpos = pos;
          newitem = heap ! pos;
          (heap', pos') = siftup_loop heap endpos pos
      in siftdown (heap'[pos' := newitem]) startpos pos')"

definition heappush :: "('s, 'a) node list \<Rightarrow> ('s, 'a) node \<Rightarrow> ('s, 'a) node list" where
  "heappush heap item = siftdown (heap @ [item]) 0 (length heap)"

definition heappop ::
  "('s, 'a) node list \<Rightarrow> error + ('s, 'a) node \<times> ('s, 'a) node list" where
  "heappop heap =
     (if heap = [] then Inl IndexError
      else
        (let lastelt = last heap;
             heap1 = butlast heap
         in if heap1 \<noteq> [] then
              (let returnitem = heap1 ! 0
               in Inr (returnitem, siftup (heap1[0 := lastelt]) 0))
            else Inr (lastelt, heap1)))"

subsection \<open>Uniform-cost search\<close>

fun ucs_neighbors ::
  "('s, 's) problem \<Rightarrow> ('s, 's) node \<Rightarrow> 's list \<Rightarrow> 's config \<Rightarrow> error + 's config" where
  "ucs_neighbors p node [] c = Inr c"
| "ucs_neighbors p node (neighbor # rest) c =
     (if neighbor \<notin> explored c \<and> Bare neighbor \<notin> frontier_states c then
        (case path_cost p (cost node) (state node) None neighbor of
           Inl e \<Rightarrow> Inl e
         | Inr cst \<Rightarrow>
             ucs_neighbors p node rest
               (c\<lparr>frontier := heappush (frontier c) (Node neighbor (Some neighbor) (Some node) cst),
                  frontier_states := insert (Tuple neighbor cst) (frontier_states c)\<rparr>))
      else ucs_neighbors p node rest c)"

definition ucs_body :: "('s, 's) problem \<Rightarrow> 's config \<Rightarrow> error + 's step" where
  "ucs_body p c =
     (case heappop (frontier c) of
        Inl e \<Rightarrow> Inl e
      | Inr (node, heap) \<Rightarrow>
          (let c1 = c\<lparr>frontier := heap, explored := insert (state node) (explored c)\<rparr>
           in if Tuple (state node) (cost node) \<notin> frontier_states c1 then Inl KeyError
              else
                (let c2 = c1\<lparr>frontier_states :=
                              frontier_states c1 - {Tuple (state node) (cost node)}\<rparr>
                 in if goal_test p (state node) then Inr (Return node)
                    else (case actions p (state node) of
                            Inl e \<Rightarrow> Inl e
                          | Inr neighbors \<Rightarrow>
                              (case ucs_neighbors p node neighbors c2 of
                                 Inl e \<Rightarrow> Inl e
                               | Inr c3 \<Rightarrow> Inr (Continue c3))))))"

text \<open>\<open>heapq.heapify\<close> leaves a one-element list as it is.\<close>

definition uniform_cost_search ::
  "('s, 's) problem \<Rightarrow> (error + ('s, 's) node option) option" where
  "uniform_cost_search p =
     while_frontier (ucs_body p) (init_pairs p)"

subsection \<open>A* search\<close>

record Location =
  x :: int
  y :: int

definition euclidean_distance :: "Location \<Rightarrow> Location \<Rightarrow> real" where
  "euclidean_distance loc1 loc2 =
     sqrt (real_of_int ((x loc1 - x loc2)\<^sup>2) + real_of_int ((y loc1 - y loc2)\<^sup>2))"

definition locations :: "(string \<times> Location) list" where
  "locations =
    [(''Arad'', \<lparr>x = 91, y = 492\<rparr>),
     (''Bucharest'', \<lparr>x = 400, y = 327\<rparr>),
     (''Craiova'', \<lparr>x = 253, y = 288\<rparr>),
     (''Drobeta'', \<lparr>x = 165, y = 299\<rparr>),
     (''Eforie'', \<lparr>x = 562, y = 293\<rparr>),
     (''Fagaras'', \<lparr>x = 305, y = 449\<rparr>),
     (''Giurgiu'', \<lparr>x = 375, y = 270\<rparr>),
     (''Hirsova'', \<lparr>x = 534, y = 350\<rparr>),
     (''Iasi'', \<lparr>x = 473, y = 506\<rparr>),
     (''Lugoj'', \<lparr>x = 165, y = 379\<rparr>),
     (''Mehadia'', \<lparr>x = 168, y = 339\<rparr>),
     (''Neamt'', \<lparr>x = 406, y = 537\<rparr>),
     (''Oradea'', \<lparr>x = 131, y = 571\<rparr>),
     (''Pitesti'', \<lparr>x = 320, y = 368\<rparr>),
     (''Rimnicu'', \<lparr>x = 233, y = 410\<rparr>),
     (''Sibiu'', \<lparr>x = 207, y = 457\<rparr>),
     (''Timisoara'', \<lparr>x = 94, y = 410\<rparr>),
     (''Urziceni'', \<lparr>x = 456, y = 350\<rparr>),
     (''Vaslui'', \<lparr>x = 509, y = 444\<rparr>),
     (''Zerind'', \<lparr>x = 108, y = 531\<rparr>)]"

text \<open>
  \<open>a_star_search\<close> reads the module-level dictionary \<open>locations\<close>; the model takes it as
  the argument \<open>locs\<close>. \<open>locations[problem.goal]\<close> with no goal set is a missing key.
\<close>

definition heuristic :: "('s \<times> Location) list \<Rightarrow> ('s, 's) problem \<Rightarrow> 's \<Rightarrow> error + real" where
  "heuristic locs p neighbor =
     (case subscript locs neighbor of
        Inl e \<Rightarrow> Inl e
      | Inr loc1 \<Rightarrow>
          (case goal p of
             None \<Rightarrow> Inl KeyError
           | Some g \<Rightarrow>
               (case subscript locs g of
                  Inl e \<Rightarrow> Inl e
                | Inr loc2 \<Rightarrow> Inr (euclidean_distance loc1 loc2))))"

fun a_star_neighbors ::
  "('s \<times> Location) list \<Rightarrow> ('s, 's) problem \<Rightarrow> ('s, 's) node \<Rightarrow> 's list \<Rightarrow> 's config
     \<Rightarrow> error + 's config" where
  "a_star_neighbors locs p node [] c = Inr c"
| "a_star_neighbors locs p node (neighbor # rest) c =
     (if neighbor \<notin> explored c \<and> Bare neighbor \<notin> frontier_states c then
        (case path_cost p (cost node) (state node) None neighbor of
           Inl e \<Rightarrow> Inl e
         | Inr pc \<Rightarrow>
             (case heuristic locs p neighbor of
                Inl e \<Rightarrow> Inl e
              | Inr h \<Rightarrow>
                  (let cst = pc + h
                   in a_star_neighbors locs p node rest
                        (c\<lparr>frontier :=
                             heappush (frontier c) (Node neighbor (Some neighbor) (Some node) cst),
                           frontier_states := insert (Tuple neighbor cst) (frontier_states c)\<rparr>))))
      else a_star_neighbors locs p node rest c)"

definition a_star_body ::
  "('s \<times> Location) list \<Rightarrow> ('s, 's) problem \<Rightarrow> 's config \<Rightarrow> error + 's step" where
  "a_star_body locs p c =
     (case heappop (frontier c) of
        Inl e \<Rightarrow> Inl e
      | Inr (node, heap) \<Rightarrow>
          (let c1 = c\<lparr>frontier := heap, explored := insert (state node) (explored c)\<rparr>
           in if Tuple (state node) (cost node) \<notin> frontier_states c1 then Inl KeyError
              else
                (let c2 = c1\<lparr>frontier_states :=
                              frontier_states c1 - {Tuple (state node) (cost node)}\<rparr>
                 in if goal_test p (state node) then Inr (Return node)
                    else (case actions p (state node) of
                            Inl e \<Rightarrow> Inl e
                          | Inr neighbors \<Rightarrow>
                              (case a_star_neighbors locs p node neighbors c2 of
                                 Inl e \<Rightarrow> Inl e
                               | Inr c3 \<Rightarrow> Inr (Continue c3))))))"

definition a_star_search ::
  "('s \<times> Location) list \<Rightarrow> ('s, 's) problem \<Rightarrow> (error + ('s, 's) node option) option" where
  "a_star_search locs p =
     while_frontier (a_star_body locs p) (init_pairs p)"

section \<open>The notebook's calls\<close>

text \<open>\<open>problem = PathFinder("Arad", "Bucharest", romania_map)\<close>.\<close>

definition romania_problem :: "(string, string) problem" where
  "romania_problem = PathFinder ''Arad'' ''Bucharest'' romania_map"

section \<open>Notions used to state the properties\<close>

text \<open>
  The search functions take every element of \<open>problem.actions(state)\<close> as the neighbouring
  state itself (they never call \<open>problem.result\<close>; \<open>PathFinder.result\<close> returns the
  action). So the graph they walk has an edge from \<open>s\<close> to \<open>t\<close> when \<open>t\<close> is among the
  actions of \<open>s\<close>.
\<close>

definition edge :: "('s, 's) problem \<Rightarrow> 's \<Rightarrow> 's \<Rightarrow> bool" where
  "edge p s t = (case actions p s of Inl e \<Rightarrow> False | Inr neighbors \<Rightarrow> t \<in> set neighbors)"

inductive_set reachable :: "('s, 's) problem \<Rightarrow> 's set" for p :: "('s, 's) problem" where
  initial: "initial p \<in> reachable p"
| step: "s \<in> reachable p \<Longrightarrow> edge p s t \<Longrightarrow> t \<in> reachable p"

text \<open>The path cost accumulated from the root to a node: \<open>problem.path_cost\<close> applied
  along the parent chain, starting from 0 at the root.\<close>

fun accumulated_path_cost :: "('s, 's) problem \<Rightarrow> ('s, 's) node \<Rightarrow> error + real" where
  "accumulated_path_cost p (Node s a None c) = Inr 0"
| "accumulated_path_cost p (Node s a (Some par) c) =
     (case accumulated_path_cost p par of
        Inl e \<Rightarrow> Inl e
      | Inr g \<Rightarrow> path_cost p g (state par) None s)"

text \<open>
  A problem whose methods do not raise on the part of the graph a search can reach:
  \<open>actions\<close> returns a list at every reachable state and \<open>path_cost\<close> returns a number
  along every edge from it.
\<close>

definition well_behaved :: "('s, 's) problem \<Rightarrow> bool" where
  "well_behaved p =
     (\<forall>s \<in> reachable p.
        (\<exists>neighbors. actions p s = Inr neighbors)
        \<and> (\<forall>t c. edge p s t \<longrightarrow> (\<exists>c'. path_cost p c s None t = Inr c')))"

text \<open>A sequence of states in which each one is among the actions of the one before.\<close>

fun is_walk :: "('s, 's) problem \<Rightarrow> 's list \<Rightarrow> bool" where
  "is_walk p [] = False"
| "is_walk p [s] = True"
| "is_walk p (s # t # rest) = (edge p s t \<and> is_walk p (t # rest))"

text \<open>A walk from the initial state to a state that passes the goal test.\<close>

definition solution_walk :: "('s, 's) problem \<Rightarrow> 's list \<Rightarrow> bool" where
  "solution_walk p ss = (is_walk p ss \<and> hd ss = initial p \<and> goal_test p (last ss))"

text \<open>States reachable in exactly \<open>k\<close> edges, and the least such \<open>k\<close>.\<close>

inductive reach_in :: "('s, 's) problem \<Rightarrow> nat \<Rightarrow> 's \<Rightarrow> bool" for p :: "('s, 's) problem" where
  zero: "reach_in p 0 (initial p)"
| suc: "reach_in p k s \<Longrightarrow> edge p s t \<Longrightarrow> reach_in p (Suc k) t"

definition hops :: "('s, 's) problem \<Rightarrow> 's \<Rightarrow> nat" where
  "hops p s = (LEAST k. reach_in p k s)"

text \<open>
  The termination measure of the four loops, ordered lexicographically: the number of
  reachable states not yet explored, then the number of frontier nodes whose state is
  already explored.
\<close>

definition termination_measure :: "('s, 's) problem \<Rightarrow> 's config \<Rightarrow> nat \<times> nat" where
  "termination_measure p c =
     (card (reachable p - explored c),
      length (filter (\<lambda>n. state n \<in> explored c) (frontier c)))"

text \<open>The measure decreases at every iteration of a run of the loop from \<open>c0\<close>.\<close>

definition decreasing ::
  "('s, 's) problem \<Rightarrow> ('s config \<Rightarrow> error + 's step) \<Rightarrow> 's config \<Rightarrow> bool" where
  "decreasing p body c0 =
     (\<forall>k c c'.
        after_iterations k body c0 = Some c \<longrightarrow> frontier c \<noteq> [] \<longrightarrow>
        body c = Inr (Continue c') \<longrightarrow>
        (termination_measure p c', termination_measure p c) \<in> less_than <*lex*> less_than)"

text \<open>
  One iteration seen from outside: a frontier node is taken out and its state explored,
  and the nodes put in are for unexplored neighbours of that state.
\<close>

definition expands :: "('s, 's) problem \<Rightarrow> 's config \<Rightarrow> 's config \<Rightarrow> bool" where
  "expands p c c' =
     (\<exists>node new.
        node \<in> set (frontier c)
        \<and> explored c' = insert (state node) (explored c)
        \<and> mset (frontier c') = mset (frontier c) - {#node#} + mset new
        \<and> (\<forall>n \<in> set new. state n \<notin> explored c' \<and> edge p (state node) (state n)))"

text \<open>
  One iteration of the breadth-first or depth-first loop in detail, up to where the new
  nodes go in the frontier: the state of the last node is taken out of \<open>frontier_states\<close>
  and explored, it fails the goal test, and the new nodes \<open>new\<close> are for those of its
  neighbours \<open>nbs\<close> that were neither explored nor in \<open>frontier_states\<close>, once each.
\<close>

definition queue_iteration ::
  "('s, 's) problem \<Rightarrow> 's config \<Rightarrow> 's config \<Rightarrow> 's list \<Rightarrow> ('s, 's) node list \<Rightarrow> bool" where
  "queue_iteration p c c' nbs new =
     (Bare (state (last (frontier c))) \<in> frontier_states c
      \<and> \<not> goal_test p (state (last (frontier c)))
      \<and> actions p (state (last (frontier c))) = Inr nbs
      \<and> explored c' = insert (state (last (frontier c))) (explored c)
      \<and> frontier_states c' =
          (frontier_states c - {Bare (state (last (frontier c)))}) \<union> Bare ` state ` set new
      \<and> distinct (map state new)
      \<and> (\<forall>n \<in> set new.
            state n \<in> set nbs
            \<and> state n \<notin> insert (state (last (frontier c))) (explored c)
            \<and> Bare (state n) \<notin> frontier_states c - {Bare (state (last (frontier c)))}
            \<and> parent n = Some (last (frontier c)))
      \<and> (\<forall>nb \<in> set nbs.
            nb \<in> insert (state (last (frontier c))) (explored c)
            \<or> Bare nb \<in> frontier_states c'))"

text \<open>
  The nodes an iteration of the breadth-first loop put into the frontier (at the left
  end), those an iteration of the depth-first loop put in (at the right end), and the
  states inserted over the first \<open>k\<close> iterations of a run, in order.
\<close>

definition bfs_pushed :: "'s config \<Rightarrow> 's config \<Rightarrow> ('s, 's) node list" where
  "bfs_pushed c c' = take (Suc (length (frontier c')) - length (frontier c)) (frontier c')"

definition dfs_pushed :: "'s config \<Rightarrow> 's config \<Rightarrow> ('s, 's) node list" where
  "dfs_pushed c c' = drop (length (frontier c) - 1) (frontier c')"

fun pushed_states ::
  "('s config \<Rightarrow> 's config \<Rightarrow> ('s, 's) node list) \<Rightarrow> nat \<Rightarrow> ('s config \<Rightarrow> error + 's step)
     \<Rightarrow> 's config \<Rightarrow> 's list" where
  "pushed_states pushed 0 body c = []"
| "pushed_states pushed (Suc k) body c =
     (if frontier c = [] then []
      else (case body c of
              Inr (Continue c') \<Rightarrow> map state (pushed c c') @ pushed_states pushed k body c'
            | _ \<Rightarrow> []))"

text \<open>
  What the claim about the two queue-based loops says of a configuration at the loop test:
  \<open>frontier_states\<close> is the set of states of the frontier nodes, no state has two nodes,
  none is explored, and the state of the node about to be popped is in
  \<open>frontier_states\<close>.
\<close>

definition mirrors :: "'s config \<Rightarrow> bool" where
  "mirrors c =
     (frontier_states c = Bare ` state ` set (frontier c)
      \<and> distinct (map state (frontier c))
      \<and> state ` set (frontier c) \<inter> explored c = {}
      \<and> (frontier c = [] \<or> Bare (state (last (frontier c))) \<in> frontier_states c))"

text \<open>
  The invariant behind the shortest routes of the breadth-first loop. A node is a
  shortest route when the states on its \<open>path()\<close> form a walk from the initial state
  with as few edges as any walk to its state has. A configuration is levelled when every
  frontier node is a shortest route, the frontier is ordered by distance with at most two
  consecutive distances in it, no explored state passes the goal test, every neighbour
  of an explored state has been generated, and every reachable state no farther than the
  node about to be popped has been generated.
\<close>

definition shortest_route :: "('s, 's) problem \<Rightarrow> ('s, 's) node \<Rightarrow> bool" where
  "shortest_route p n =
     (is_walk p (map state (path n))
      \<and> hd (map state (path n)) = initial p
      \<and> length (path n) = Suc (hops p (state n)))"

definition levelled :: "('s, 's) problem \<Rightarrow> 's config \<Rightarrow> bool" where
  "levelled p c =
     (mirrors c
      \<and> (\<forall>n \<in> set (frontier c). shortest_route p n)
      \<and> sorted (rev (map (\<lambda>n. hops p (state n)) (frontier c)))
      \<and> (\<forall>n \<in> set (frontier c).
            hops p (state n) \<le> Suc (hops p (state (last (frontier c)))))
      \<and> (\<forall>s \<in> explored c.
            \<not> goal_test p s
            \<and> (\<forall>t. edge p s t \<longrightarrow> t \<in> explored c \<union> state ` set (frontier c)))
      \<and> (\<forall>t \<in> reachable p.
            frontier c \<noteq> [] \<longrightarrow> hops p t \<le> hops p (state (last (frontier c))) \<longrightarrow>
            t \<in> explored c \<union> state ` set (frontier c))
      \<and> initial p \<in> explored c \<union> state ` set (frontier c))"

text \<open>
  The heuristic of \<open>a_star_search\<close> is consistent on a road map when, along every road,
  it drops by no more than the length of the road. With heuristic 0 at the goal this
  makes it admissible.
\<close>

definition consistent_on ::
  "('s \<times> Location) list \<Rightarrow> ('s, 's) problem \<Rightarrow> 's graph \<Rightarrow> bool" where
  "consistent_on locs p graph =
     list_all (\<lambda>(s, nbrs).
       list_all (\<lambda>(t, w).
         case (heuristic locs p s, heuristic locs p t) of
           (Inr hs, Inr ht) \<Rightarrow> hs \<le> w + ht
         | _ \<Rightarrow> False) nbrs) graph"

text \<open>
  Action sequences through \<open>problem.result\<close>, as the \<open>Problem\<close> interface has them:
  following a sequence of actions from a state applies each action, which must be among
  the actions of the state reached so far, and gives the state \<open>result\<close> returns. A
  sequence leads to a goal when following it from the initial state ends in a state that
  passes the goal test; its number of edges is its length.
\<close>

fun follow :: "('s, 'a) problem \<Rightarrow> 's \<Rightarrow> 'a list \<Rightarrow> 's option" where
  "follow p s [] = Some s"
| "follow p s (a # as) =
     (case actions p s of
        Inl e \<Rightarrow> None
      | Inr acts \<Rightarrow>
          if a \<in> set acts then
            (case result p s a of Inl e \<Rightarrow> None | Inr t \<Rightarrow> follow p t as)
          else None)"

definition leads_to_goal :: "('s, 'a) problem \<Rightarrow> 'a list \<Rightarrow> bool" where
  "leads_to_goal p as =
     (case follow p (initial p) as of None \<Rightarrow> False | Some g \<Rightarrow> goal_test p g)"

inductive_set result_reachable :: "('s, 'a) problem \<Rightarrow> 's set" for p :: "('s, 'a) problem" where
  initial: "initial p \<in> result_reachable p"
| step: "s \<in> result_reachable p \<Longrightarrow> actions p s = Inr acts \<Longrightarrow> a \<in> set acts \<Longrightarrow>
         result p s a = Inr t \<Longrightarrow> t \<in> result_reachable p"

text \<open>
  A problem whose actions are the successor states themselves: \<open>result\<close> returns the
  action it is given, as \<open>PathFinder.result\<close> does.
\<close>

definition actions_are_successors :: "('s, 's) problem \<Rightarrow> bool" where
  "actions_are_successors p =
     (\<forall>s acts a. actions p s = Inr acts \<longrightarrow> a \<in> set acts \<longrightarrow> result p s a = Inr a)"

text \<open>
  A problem whose methods return on the states its action sequences reach: \<open>actions\<close>
  returns a list, and \<open>path_cost\<close> returns a number for every action in it (the search
  functions pass the action as the fourth argument).
\<close>

definition methods_return :: "('s, 's) problem \<Rightarrow> bool" where
  "methods_return p =
     (\<forall>s \<in> result_reachable p.
        \<exists>acts. actions p s = Inr acts
          \<and> (\<forall>a \<in> set acts. \<forall>c. \<exists>c'. path_cost p c s None a = Inr c'))"

subsection \<open>Two small road maps\<close>

text \<open>
  A diamond: two roads of equal length from \<open>A\<close> to \<open>D\<close>, and a goal \<open>E\<close> that no road
  reaches. The coordinates put \<open>B\<close> and \<open>C\<close> at the same distance from \<open>E\<close>.
\<close>

definition diamond_map :: "string graph" where
  "diamond_map =
    [(''A'', [(''B'', 1), (''C'', 1)]),
     (''B'', [(''D'', 1)]),
     (''C'', [(''D'', 1)]),
     (''D'', []),
     (''E'', [])]"

definition diamond_locations :: "(string \<times> Location) list" where
  "diamond_locations =
    [(''A'', \<lparr>x = 0, y = 0\<rparr>),
     (''B'', \<lparr>x = 0, y = 4\<rparr>),
     (''C'', \<lparr>x = 0, y = - 4\<rparr>),
     (''D'', \<lparr>x = 3, y = 4\<rparr>),
     (''E'', \<lparr>x = 3, y = 0\<rparr>)]"

definition diamond_problem :: "(string, string) problem" where
  "diamond_problem = PathFinder ''A'' ''E'' diamond_map"

text \<open>
  A subclass of \<open>Problem\<close> with one action \<open>go\<close> in the state \<open>S\<close>, whose result is the
  goal \<open>G\<close>; every step costs 1, as in the base class.
\<close>

definition go_problem :: "(string, string) problem" where
  "go_problem =
     (Problem ''S'' (Some ''G''))
       \<lparr>actions := (\<lambda>state. Inr (if state = ''S'' then [''go''] else [])),
        result := (\<lambda>state action.
          Inr (if state = ''S'' \<and> action = ''go'' then ''G'' else state))\<rparr>"

text \<open>A road map in which the neighbour \<open>B\<close> of \<open>A\<close> is not a key of the dictionary.\<close>

definition dangling_map :: "string graph" where
  "dangling_map = [(''A'', [(''B'', 1), (''G'', 1)]), (''G'', [])]"

definition dangling_problem :: "(string, string) problem" where
  "dangling_problem = PathFinder ''A'' ''G'' dangling_map"

section \<open>Evaluating the loops on concrete inputs\<close>

text \<open>
  The heap loops are unfolded one iteration at a time: the equations below replace the
  defining ones as rewrite rules, so that a loop is only unfolded once its test is decided.
\<close>

lemma siftdown_loop_unfold:
  "siftdown_loop heap newitem startpos pos =
     (if pos > startpos then
        (let parentpos = (pos - 1) div 2;
             par = heap ! parentpos
         in if node_lt newitem par
            then siftdown_loop (heap[pos := par]) newitem startpos parentpos
            else heap[pos := newitem])
      else heap[pos := newitem])"
  by simp

lemma siftup_loop_unfold:
  "siftup_loop heap endpos pos =
     (let childpos = 2 * pos + 1
      in if childpos < endpos then
           (let rightpos = childpos + 1;
                childpos' = (if rightpos < endpos
                                \<and> \<not> node_lt (heap ! childpos) (heap ! rightpos)
                             then rightpos else childpos)
            in siftup_loop (heap[pos := heap ! childpos']) endpos childpos')
         else (heap, pos))"
  by simp

declare siftdown_loop.simps [simp del] siftup_loop.simps [simp del]

lemmas heap_eval =
  heappop_def heappush_def siftup_def siftdown_def siftdown_loop_unfold siftup_loop_unfold
  node_lt_def Let_def insert_Diff_if

lemma sqrt_16: "sqrt 16 = 4"
  using real_sqrt_abs [of 4] by simp

lemma sqrt_25: "sqrt 25 = 5"
  using real_sqrt_abs [of 5] by simp

subsection \<open>The road map: what the problem's methods return\<close>

lemma romania_initial: "initial romania_problem = ''Arad''"
  by (simp add: romania_problem_def PathFinder_def)

lemma romania_goal_test: "goal_test romania_problem s = (s = ''Bucharest'')"
  by (simp add: romania_problem_def PathFinder_def)

lemma romania_actions_Arad:
  "actions romania_problem ''Arad'' = Inr [''Zerind'', ''Sibiu'', ''Timisoara'']"
  by (simp add: romania_problem_def PathFinder_def subscript_def romania_map_def)

lemma romania_cost_Arad_Zerind:
  "path_cost romania_problem c ''Arad'' None ''Zerind'' = Inr (c + 75)"
  by (simp add: romania_problem_def PathFinder_def subscript_def romania_map_def)

lemma romania_cost_Arad_Sibiu:
  "path_cost romania_problem c ''Arad'' None ''Sibiu'' = Inr (c + 140)"
  by (simp add: romania_problem_def PathFinder_def subscript_def romania_map_def)

lemma romania_cost_Arad_Timisoara:
  "path_cost romania_problem c ''Arad'' None ''Timisoara'' = Inr (c + 118)"
  by (simp add: romania_problem_def PathFinder_def subscript_def romania_map_def)

lemma romania_actions_Sibiu:
  "actions romania_problem ''Sibiu'' = Inr [''Arad'', ''Fagaras'', ''Oradea'', ''Rimnicu'']"
  by (simp add: romania_problem_def PathFinder_def subscript_def romania_map_def)

lemma romania_cost_Sibiu_Arad:
  "path_cost romania_problem c ''Sibiu'' None ''Arad'' = Inr (c + 140)"
  by (simp add: romania_problem_def PathFinder_def subscript_def romania_map_def)

lemma romania_cost_Sibiu_Fagaras:
  "path_cost romania_problem c ''Sibiu'' None ''Fagaras'' = Inr (c + 99)"
  by (simp add: romania_problem_def PathFinder_def subscript_def romania_map_def)

lemma romania_cost_Sibiu_Oradea:
  "path_cost romania_problem c ''Sibiu'' None ''Oradea'' = Inr (c + 151)"
  by (simp add: romania_problem_def PathFinder_def subscript_def romania_map_def)

lemma romania_cost_Sibiu_Rimnicu:
  "path_cost romania_problem c ''Sibiu'' None ''Rimnicu'' = Inr (c + 80)"
  by (simp add: romania_problem_def PathFinder_def subscript_def romania_map_def)

lemma romania_actions_Zerind:
  "actions romania_problem ''Zerind'' = Inr [''Arad'', ''Oradea'']"
  by (simp add: romania_problem_def PathFinder_def subscript_def romania_map_def)

lemma romania_cost_Zerind_Arad:
  "path_cost romania_problem c ''Zerind'' None ''Arad'' = Inr (c + 75)"
  by (simp add: romania_problem_def PathFinder_def subscript_def romania_map_def)

lemma romania_cost_Zerind_Oradea:
  "path_cost romania_problem c ''Zerind'' None ''Oradea'' = Inr (c + 71)"
  by (simp add: romania_problem_def PathFinder_def subscript_def romania_map_def)

lemma romania_actions_Timisoara:
  "actions romania_problem ''Timisoara'' = Inr [''Arad'', ''Lugoj'']"
  by (simp add: romania_problem_def PathFinder_def subscript_def romania_map_def)

lemma romania_cost_Timisoara_Arad:
  "path_cost romania_problem c ''Timisoara'' None ''Arad'' = Inr (c + 118)"
  by (simp add: romania_problem_def PathFinder_def subscript_def romania_map_def)

lemma romania_cost_Timisoara_Lugoj:
  "path_cost romania_problem c ''Timisoara'' None ''Lugoj'' = Inr (c + 111)"
  by (simp add: romania_problem_def PathFinder_def subscript_def romania_map_def)

lemma romania_actions_Fagaras:
  "actions romania_problem ''Fagaras'' = Inr [''Bucharest'', ''Sibiu'']"
  by (simp add: romania_problem_def PathFinder_def subscript_def romania_map_def)

lemma romania_cost_Fagaras_Bucharest:
  "path_cost romania_problem c ''Fagaras'' None ''Bucharest'' = Inr (c + 211)"
  by (simp add: romania_problem_def PathFinder_def subscript_def romania_map_def)

lemma romania_cost_Fagaras_Sibiu:
  "path_cost romania_problem c ''Fagaras'' None ''Sibiu'' = Inr (c + 99)"
  by (simp add: romania_problem_def PathFinder_def subscript_def romania_map_def)

lemma romania_actions_Rimnicu:
  "actions romania_problem ''Rimnicu'' = Inr [''Craiova'', ''Pitesti'', ''Sibiu'']"
  by (simp add: romania_problem_def PathFinder_def subscript_def romania_map_def)

lemma romania_cost_Rimnicu_Craiova:
  "path_cost romania_problem c ''Rimnicu'' None ''Craiova'' = Inr (c + 146)"
  by (simp add: romania_problem_def PathFinder_def subscript_def romania_map_def)

lemma romania_cost_Rimnicu_Pitesti:
  "path_cost romania_problem c ''Rimnicu'' None ''Pitesti'' = Inr (c + 97)"
  by (simp add: romania_problem_def PathFinder_def subscript_def romania_map_def)

lemma romania_cost_Rimnicu_Sibiu:
  "path_cost romania_problem c ''Rimnicu'' None ''Sibiu'' = Inr (c + 80)"
  by (simp add: romania_problem_def PathFinder_def subscript_def romania_map_def)

lemma romania_actions_Lugoj:
  "actions romania_problem ''Lugoj'' = Inr [''Timisoara'', ''Mehadia'']"
  by (simp add: romania_problem_def PathFinder_def subscript_def romania_map_def)

lemma romania_cost_Lugoj_Timisoara:
  "path_cost romania_problem c ''Lugoj'' None ''Timisoara'' = Inr (c + 111)"
  by (simp add: romania_problem_def PathFinder_def subscript_def romania_map_def)

lemma romania_cost_Lugoj_Mehadia:
  "path_cost romania_problem c ''Lugoj'' None ''Mehadia'' = Inr (c + 70)"
  by (simp add: romania_problem_def PathFinder_def subscript_def romania_map_def)

lemma romania_actions_Pitesti:
  "actions romania_problem ''Pitesti'' = Inr [''Bucharest'', ''Craiova'', ''Rimnicu'']"
  by (simp add: romania_problem_def PathFinder_def subscript_def romania_map_def)

lemma romania_cost_Pitesti_Bucharest:
  "path_cost romania_problem c ''Pitesti'' None ''Bucharest'' = Inr (c + 101)"
  by (simp add: romania_problem_def PathFinder_def subscript_def romania_map_def)

lemma romania_cost_Pitesti_Craiova:
  "path_cost romania_problem c ''Pitesti'' None ''Craiova'' = Inr (c + 138)"
  by (simp add: romania_problem_def PathFinder_def subscript_def romania_map_def)

lemma romania_cost_Pitesti_Rimnicu:
  "path_cost romania_problem c ''Pitesti'' None ''Rimnicu'' = Inr (c + 97)"
  by (simp add: romania_problem_def PathFinder_def subscript_def romania_map_def)

lemmas romania_actions =
  romania_actions_Arad
  romania_actions_Sibiu
  romania_actions_Zerind
  romania_actions_Timisoara
  romania_actions_Fagaras
  romania_actions_Rimnicu
  romania_actions_Lugoj
  romania_actions_Pitesti

lemmas romania_costs =
  romania_cost_Arad_Zerind
  romania_cost_Arad_Sibiu
  romania_cost_Arad_Timisoara
  romania_cost_Sibiu_Arad
  romania_cost_Sibiu_Fagaras
  romania_cost_Sibiu_Oradea
  romania_cost_Sibiu_Rimnicu
  romania_cost_Zerind_Arad
  romania_cost_Zerind_Oradea
  romania_cost_Timisoara_Arad
  romania_cost_Timisoara_Lugoj
  romania_cost_Fagaras_Bucharest
  romania_cost_Fagaras_Sibiu
  romania_cost_Rimnicu_Craiova
  romania_cost_Rimnicu_Pitesti
  romania_cost_Rimnicu_Sibiu
  romania_cost_Lugoj_Timisoara
  romania_cost_Lugoj_Mehadia
  romania_cost_Pitesti_Bucharest
  romania_cost_Pitesti_Craiova
  romania_cost_Pitesti_Rimnicu

text \<open>The straight-line distances to Bucharest, and rational bounds on them.\<close>

lemma romania_h_Arad:
  "heuristic locations romania_problem ''Arad'' = Inr (sqrt 122706)"
  by (simp add: heuristic_def romania_problem_def PathFinder_def subscript_def locations_def
        euclidean_distance_def)

lemma sqrt_bounds_Arad: "35029 / 100 < sqrt 122706 \<and> sqrt 122706 < 35030 / 100"
  by (rule conjI, rule real_less_rsqrt, simp add: power2_eq_square,
      rule real_less_lsqrt, simp, simp add: power2_eq_square)

lemma romania_h_Bucharest:
  "heuristic locations romania_problem ''Bucharest'' = Inr (sqrt 0)"
  by (simp add: heuristic_def romania_problem_def PathFinder_def subscript_def locations_def
        euclidean_distance_def)

lemma romania_h_Craiova:
  "heuristic locations romania_problem ''Craiova'' = Inr (sqrt 23130)"
  by (simp add: heuristic_def romania_problem_def PathFinder_def subscript_def locations_def
        euclidean_distance_def)

lemma sqrt_bounds_Craiova: "15208 / 100 < sqrt 23130 \<and> sqrt 23130 < 15209 / 100"
  by (rule conjI, rule real_less_rsqrt, simp add: power2_eq_square,
      rule real_less_lsqrt, simp, simp add: power2_eq_square)

lemma romania_h_Drobeta:
  "heuristic locations romania_problem ''Drobeta'' = Inr (sqrt 56009)"
  by (simp add: heuristic_def romania_problem_def PathFinder_def subscript_def locations_def
        euclidean_distance_def)

lemma sqrt_bounds_Drobeta: "23666 / 100 < sqrt 56009 \<and> sqrt 56009 < 23667 / 100"
  by (rule conjI, rule real_less_rsqrt, simp add: power2_eq_square,
      rule real_less_lsqrt, simp, simp add: power2_eq_square)

lemma romania_h_Eforie:
  "heuristic locations romania_problem ''Eforie'' = Inr (sqrt 27400)"
  by (simp add: heuristic_def romania_problem_def PathFinder_def subscript_def locations_def
        euclidean_distance_def)

lemma sqrt_bounds_Eforie: "16552 / 100 < sqrt 27400 \<and> sqrt 27400 < 16553 / 100"
  by (rule conjI, rule real_less_rsqrt, simp add: power2_eq_square,
      rule real_less_lsqrt, simp, simp add: power2_eq_square)

lemma romania_h_Fagaras:
  "heuristic locations romania_problem ''Fagaras'' = Inr (sqrt 23909)"
  by (simp add: heuristic_def romania_problem_def PathFinder_def subscript_def locations_def
        euclidean_distance_def)

lemma sqrt_bounds_Fagaras: "15462 / 100 < sqrt 23909 \<and> sqrt 23909 < 15463 / 100"
  by (rule conjI, rule real_less_rsqrt, simp add: power2_eq_square,
      rule real_less_lsqrt, simp, simp add: power2_eq_square)

lemma romania_h_Giurgiu:
  "heuristic locations romania_problem ''Giurgiu'' = Inr (sqrt 3874)"
  by (simp add: heuristic_def romania_problem_def PathFinder_def subscript_def locations_def
        euclidean_distance_def)

lemma sqrt_bounds_Giurgiu: "6224 / 100 < sqrt 3874 \<and> sqrt 3874 < 6225 / 100"
  by (rule conjI, rule real_less_rsqrt, simp add: power2_eq_square,
      rule real_less_lsqrt, simp, simp add: power2_eq_square)

lemma romania_h_Hirsova:
  "heuristic locations romania_problem ''Hirsova'' = Inr (sqrt 18485)"
  by (simp add: heuristic_def romania_problem_def PathFinder_def subscript_def locations_def
        euclidean_distance_def)

lemma sqrt_bounds_Hirsova: "13595 / 100 < sqrt 18485 \<and> sqrt 18485 < 13596 / 100"
  by (rule conjI, rule real_less_rsqrt, simp add: power2_eq_square,
      rule real_less_lsqrt, simp, simp add: power2_eq_square)

lemma romania_h_Iasi:
  "heuristic locations romania_problem ''Iasi'' = Inr (sqrt 37370)"
  by (simp add: heuristic_def romania_problem_def PathFinder_def subscript_def locations_def
        euclidean_distance_def)

lemma sqrt_bounds_Iasi: "19331 / 100 < sqrt 37370 \<and> sqrt 37370 < 19332 / 100"
  by (rule conjI, rule real_less_rsqrt, simp add: power2_eq_square,
      rule real_less_lsqrt, simp, simp add: power2_eq_square)

lemma romania_h_Lugoj:
  "heuristic locations romania_problem ''Lugoj'' = Inr (sqrt 57929)"
  by (simp add: heuristic_def romania_problem_def PathFinder_def subscript_def locations_def
        euclidean_distance_def)

lemma sqrt_bounds_Lugoj: "24068 / 100 < sqrt 57929 \<and> sqrt 57929 < 24069 / 100"
  by (rule conjI, rule real_less_rsqrt, simp add: power2_eq_square,
      rule real_less_lsqrt, simp, simp add: power2_eq_square)

lemma romania_h_Mehadia:
  "heuristic locations romania_problem ''Mehadia'' = Inr (sqrt 53968)"
  by (simp add: heuristic_def romania_problem_def PathFinder_def subscript_def locations_def
        euclidean_distance_def)

lemma sqrt_bounds_Mehadia: "23231 / 100 < sqrt 53968 \<and> sqrt 53968 < 23232 / 100"
  by (rule conjI, rule real_less_rsqrt, simp add: power2_eq_square,
      rule real_less_lsqrt, simp, simp add: power2_eq_square)

lemma romania_h_Neamt:
  "heuristic locations romania_problem ''Neamt'' = Inr (sqrt 44136)"
  by (simp add: heuristic_def romania_problem_def PathFinder_def subscript_def locations_def
        euclidean_distance_def)

lemma sqrt_bounds_Neamt: "21008 / 100 < sqrt 44136 \<and> sqrt 44136 < 21009 / 100"
  by (rule conjI, rule real_less_rsqrt, simp add: power2_eq_square,
      rule real_less_lsqrt, simp, simp add: power2_eq_square)

lemma romania_h_Oradea:
  "heuristic locations romania_problem ''Oradea'' = Inr (sqrt 131897)"
  by (simp add: heuristic_def romania_problem_def PathFinder_def subscript_def locations_def
        euclidean_distance_def)

lemma sqrt_bounds_Oradea: "36317 / 100 < sqrt 131897 \<and> sqrt 131897 < 36318 / 100"
  by (rule conjI, rule real_less_rsqrt, simp add: power2_eq_square,
      rule real_less_lsqrt, simp, simp add: power2_eq_square)

lemma romania_h_Pitesti:
  "heuristic locations romania_problem ''Pitesti'' = Inr (sqrt 8081)"
  by (simp add: heuristic_def romania_problem_def PathFinder_def subscript_def locations_def
        euclidean_distance_def)

lemma sqrt_bounds_Pitesti: "8989 / 100 < sqrt 8081 \<and> sqrt 8081 < 8990 / 100"
  by (rule conjI, rule real_less_rsqrt, simp add: power2_eq_square,
      rule real_less_lsqrt, simp, simp add: power2_eq_square)

lemma romania_h_Rimnicu:
  "heuristic locations romania_problem ''Rimnicu'' = Inr (sqrt 34778)"
  by (simp add: heuristic_def romania_problem_def PathFinder_def subscript_def locations_def
        euclidean_distance_def)

lemma sqrt_bounds_Rimnicu: "18648 / 100 < sqrt 34778 \<and> sqrt 34778 < 18649 / 100"
  by (rule conjI, rule real_less_rsqrt, simp add: power2_eq_square,
      rule real_less_lsqrt, simp, simp add: power2_eq_square)

lemma romania_h_Sibiu:
  "heuristic locations romania_problem ''Sibiu'' = Inr (sqrt 54149)"
  by (simp add: heuristic_def romania_problem_def PathFinder_def subscript_def locations_def
        euclidean_distance_def)

lemma sqrt_bounds_Sibiu: "23269 / 100 < sqrt 54149 \<and> sqrt 54149 < 23270 / 100"
  by (rule conjI, rule real_less_rsqrt, simp add: power2_eq_square,
      rule real_less_lsqrt, simp, simp add: power2_eq_square)

lemma romania_h_Timisoara:
  "heuristic locations romania_problem ''Timisoara'' = Inr (sqrt 100525)"
  by (simp add: heuristic_def romania_problem_def PathFinder_def subscript_def locations_def
        euclidean_distance_def)

lemma sqrt_bounds_Timisoara: "31705 / 100 < sqrt 100525 \<and> sqrt 100525 < 31706 / 100"
  by (rule conjI, rule real_less_rsqrt, simp add: power2_eq_square,
      rule real_less_lsqrt, simp, simp add: power2_eq_square)

lemma romania_h_Urziceni:
  "heuristic locations romania_problem ''Urziceni'' = Inr (sqrt 3665)"
  by (simp add: heuristic_def romania_problem_def PathFinder_def subscript_def locations_def
        euclidean_distance_def)

lemma sqrt_bounds_Urziceni: "6053 / 100 < sqrt 3665 \<and> sqrt 3665 < 6054 / 100"
  by (rule conjI, rule real_less_rsqrt, simp add: power2_eq_square,
      rule real_less_lsqrt, simp, simp add: power2_eq_square)

lemma romania_h_Vaslui:
  "heuristic locations romania_problem ''Vaslui'' = Inr (sqrt 25570)"
  by (simp add: heuristic_def romania_problem_def PathFinder_def subscript_def locations_def
        euclidean_distance_def)

lemma sqrt_bounds_Vaslui: "15990 / 100 < sqrt 25570 \<and> sqrt 25570 < 15991 / 100"
  by (rule conjI, rule real_less_rsqrt, simp add: power2_eq_square,
      rule real_less_lsqrt, simp, simp add: power2_eq_square)

lemma romania_h_Zerind:
  "heuristic locations romania_problem ''Zerind'' = Inr (sqrt 126880)"
  by (simp add: heuristic_def romania_problem_def PathFinder_def subscript_def locations_def
        euclidean_distance_def)

lemma sqrt_bounds_Zerind: "35620 / 100 < sqrt 126880 \<and> sqrt 126880 < 35621 / 100"
  by (rule conjI, rule real_less_rsqrt, simp add: power2_eq_square,
      rule real_less_lsqrt, simp, simp add: power2_eq_square)

lemmas romania_h =
  romania_h_Arad
  romania_h_Bucharest
  romania_h_Craiova
  romania_h_Drobeta
  romania_h_Eforie
  romania_h_Fagaras
  romania_h_Giurgiu
  romania_h_Hirsova
  romania_h_Iasi
  romania_h_Lugoj
  romania_h_Mehadia
  romania_h_Neamt
  romania_h_Oradea
  romania_h_Pitesti
  romania_h_Rimnicu
  romania_h_Sibiu
  romania_h_Timisoara
  romania_h_Urziceni
  romania_h_Vaslui
  romania_h_Zerind

lemmas sqrt_bounds =
  sqrt_bounds_Arad
  sqrt_bounds_Craiova
  sqrt_bounds_Drobeta
  sqrt_bounds_Eforie
  sqrt_bounds_Fagaras
  sqrt_bounds_Giurgiu
  sqrt_bounds_Hirsova
  sqrt_bounds_Iasi
  sqrt_bounds_Lugoj
  sqrt_bounds_Mehadia
  sqrt_bounds_Neamt
  sqrt_bounds_Oradea
  sqrt_bounds_Pitesti
  sqrt_bounds_Rimnicu
  sqrt_bounds_Sibiu
  sqrt_bounds_Timisoara
  sqrt_bounds_Urziceni
  sqrt_bounds_Vaslui
  sqrt_bounds_Zerind

text \<open>Along every road of the map the straight-line distance to Bucharest drops by no
  more than the length of the road.\<close>

lemma romania_consistent: "consistent_on locations romania_problem romania_map"
  using sqrt_bounds
  by (simp add: consistent_on_def romania_map_def romania_h)

text \<open>The run of \<open>a_star_search\<close> in the notebook's last cell: the node returned is
  Bucharest reached through Sibiu and Fagaras, as the notebook prints.\<close>

lemma a_star_romania:
  "a_star_search locations romania_problem =
     Some (Inr (Some
       (Node ''Bucharest'' (Some ''Bucharest'')
          (Some (Node ''Fagaras'' (Some ''Fagaras'')
             (Some (Node ''Sibiu'' (Some ''Sibiu'')
                (Some (Node ''Arad'' None None 0))
                (140 + sqrt 54149)))
             (239 + sqrt 54149 + sqrt 23909)))
          (450 + (sqrt 54149 + sqrt 23909)))))"
  using sqrt_bounds
  by (simp add: a_star_search_def init_pairs_def while_frontier.simps a_star_body_def heap_eval
        romania_initial romania_goal_test romania_actions romania_costs romania_h)

lemma ucs_romania:
  "uniform_cost_search romania_problem =
     Some (Inr (Some
       (Node ''Bucharest'' (Some ''Bucharest'')
          (Some (Node ''Pitesti'' (Some ''Pitesti'')
             (Some (Node ''Rimnicu'' (Some ''Rimnicu'')
                (Some (Node ''Sibiu'' (Some ''Sibiu'')
                   (Some (Node ''Arad'' None None 0)) 140))
                220))
             317))
          418)))"
  by code_simp

section \<open>Node expansion\<close>

text \<open>Whatever the node, the problem and the action, \<open>child_node\<close> does not return.\<close>

lemma child_node_never_returns: "child_node self p act \<noteq> Inr c"
  by (simp add: child_node_def node_getattr_def split: sum.splits)

text \<open>
  C3. The claim is that \<open>n.child_node(problem, a)\<close> returns a node with state
  \<open>problem.result(n.state, a)\<close>, the cost given by \<open>problem.path_cost\<close> and parent \<open>n\<close>,
  and that \<open>n.expand(problem)\<close> returns one such child per action. The code reads
  \<open>self.path_cost\<close>, an attribute no node has, before it calls \<open>problem.path_cost\<close>: on
  the root node of the road-map problem and the action \<open>Sibiu\<close>, \<open>child_node\<close> raises
  \<open>AttributeError\<close>, and so does \<open>expand\<close>.
\<close>

theorem child_node_raises_on_romania:
  "child_node (Node ''Arad'' None None 0) romania_problem ''Sibiu'' = Inl AttributeError
   \<and> expand (Node ''Arad'' None None 0) romania_problem = Inl AttributeError"
  by (simp add: child_node_def expand_def node_getattr_def romania_problem_def
        PathFinder_def subscript_def romania_map_def)

section \<open>The worked road-map scenario\<close>

text \<open>
  C6. On the road map from Arad to Bucharest, \<open>breadth_first_graph_search\<close> returns a
  node whose \<open>path()\<close> visits Arad, Sibiu, Fagaras, Bucharest, and \<open>uniform_cost_search\<close>
  returns a node whose \<open>path()\<close> visits Arad, Sibiu, Rimnicu, Pitesti, Bucharest and whose
  accumulated cost is 418.
\<close>

theorem romania_bfs_and_ucs:
  "(case breadth_first_graph_search romania_problem of
      Some (Inr (Some n)) \<Rightarrow>
        map state (path n) = [''Arad'', ''Sibiu'', ''Fagaras'', ''Bucharest'']
    | _ \<Rightarrow> False)
   \<and> (case uniform_cost_search romania_problem of
        Some (Inr (Some n)) \<Rightarrow>
          map state (path n) = [''Arad'', ''Sibiu'', ''Rimnicu'', ''Pitesti'', ''Bucharest'']
          \<and> cost n = 418
      | _ \<Rightarrow> False)"
  by code_simp

section \<open>The priority used by A*\<close>

text \<open>
  C1. The claim is that every node \<open>a_star_search\<close> generates is ordered under its
  accumulated path cost plus the heuristic of its own state, with no heuristic value of
  an ancestor in it. The code stores the priority in \<open>node.cost\<close> and passes that same
  field to \<open>problem.path_cost\<close> for the children, so the heuristic of every ancestor below
  the root stays in. On the road map the node returned for Bucharest has path cost 450 and
  heuristic 0, and its \<open>cost\<close> is 450 plus the straight-line distances of Sibiu and of
  Fagaras (837.32 in the notebook's output).
\<close>

theorem a_star_cost_accumulates_heuristics:
  "(case a_star_search locations romania_problem of
      Some (Inr (Some n)) \<Rightarrow>
        map state (path n) = [''Arad'', ''Sibiu'', ''Fagaras'', ''Bucharest'']
        \<and> accumulated_path_cost romania_problem n = Inr 450
        \<and> heuristic locations romania_problem (state n) = Inr 0
        \<and> cost n = 450 + sqrt 54149 + sqrt 23909
        \<and> cost n > 836
    | _ \<Rightarrow> False)
   \<and> heuristic locations romania_problem ''Sibiu'' = Inr (sqrt 54149)
   \<and> heuristic locations romania_problem ''Fagaras'' = Inr (sqrt 23909)"
  using sqrt_bounds_Sibiu sqrt_bounds_Fagaras
  by (simp add: a_star_romania path_def romania_costs romania_h)

text \<open>
  C2. The claim is that with an admissible and consistent heuristic, and in particular on
  the road map from Arad to Bucharest, the path \<open>a_star_search\<close> returns costs what the
  path \<open>uniform_cost_search\<close> returns costs. The straight-line distance is consistent on
  the road map and 0 at Bucharest, yet \<open>a_star_search\<close> returns the route through
  Fagaras, of path cost 450 (and \<open>cost\<close> field above 836), while \<open>uniform_cost_search\<close>
  returns the route through Rimnicu and Pitesti, of path cost 418.
\<close>

theorem a_star_differs_from_ucs_on_romania:
  "consistent_on locations romania_problem romania_map
   \<and> heuristic locations romania_problem ''Bucharest'' = Inr 0
   \<and> (case (a_star_search locations romania_problem, uniform_cost_search romania_problem) of
      (Some (Inr (Some a)), Some (Inr (Some u))) \<Rightarrow>
        map state (path a) = [''Arad'', ''Sibiu'', ''Fagaras'', ''Bucharest'']
        \<and> map state (path u) = [''Arad'', ''Sibiu'', ''Rimnicu'', ''Pitesti'', ''Bucharest'']
        \<and> accumulated_path_cost romania_problem a = Inr 450
        \<and> accumulated_path_cost romania_problem u = Inr 418
        \<and> cost u = 418
        \<and> cost a > 836
    | _ \<Rightarrow> False)"
  using sqrt_bounds_Sibiu sqrt_bounds_Fagaras romania_consistent
  by (simp add: a_star_romania ucs_romania path_def romania_costs romania_h_Bucharest)

section \<open>Membership in \<open>frontier_states\<close> of the cost-ordered searches\<close>

text \<open>The rewrite rules that evaluate \<open>a_star_search\<close> on the diamond.\<close>

lemmas diamond_eval =
  init_pairs_def a_star_body_def diamond_problem_def PathFinder_def diamond_map_def
  diamond_locations_def heuristic_def subscript_def euclidean_distance_def sqrt_16 sqrt_25
  heap_eval

text \<open>
  C4. The claim is that a neighbour whose \<open>(state, cost)\<close> tuple is in \<open>frontier_states\<close>
  is not pushed. The test in the code is \<open>neighbor not in frontier_states\<close>, a bare state
  against a set of tuples, so it never skips. On the diamond, after two iterations the
  frontier holds \<open>C\<close> and \<open>D\<close> (reached through \<open>B\<close>) and \<open>frontier_states\<close> holds the tuple
  of \<open>D\<close>; the third iteration pops \<open>C\<close>, computes the same cost for \<open>D\<close>, and pushes a
  second node for \<open>D\<close>. The same happens in \<open>a_star_search\<close>.
\<close>

theorem cost_ordered_searches_push_duplicate_tuple:
  "(case after_iterations 2 (ucs_body diamond_problem) (init_pairs diamond_problem) of
      Some c \<Rightarrow>
        map (\<lambda>n. (state n, cost n)) (frontier c) = [(''C'', 1), (''D'', 2)]
        \<and> path_cost diamond_problem 1 ''C'' None ''D'' = Inr 2
        \<and> Tuple ''D'' 2 \<in> frontier_states c
        \<and> (case ucs_body diamond_problem c of
              Inr (Continue c') \<Rightarrow>
                map (\<lambda>n. (state n, cost n)) (frontier c') = [(''D'', 2), (''D'', 2)]
            | _ \<Rightarrow> False)
    | None \<Rightarrow> False)
   \<and> (case after_iterations 2 (a_star_body diamond_locations diamond_problem)
              (init_pairs diamond_problem) of
        Some c \<Rightarrow>
          map (\<lambda>n. (state n, cost n)) (frontier c) = [(''C'', 6), (''D'', 11)]
          \<and> Tuple ''D'' 11 \<in> frontier_states c
          \<and> (case a_star_body diamond_locations diamond_problem c of
                Inr (Continue c') \<Rightarrow>
                  map (\<lambda>n. (state n, cost n)) (frontier c') = [(''D'', 11), (''D'', 11)]
              | _ \<Rightarrow> False)
      | None \<Rightarrow> False)"
proof -
  have "case after_iterations 2 (ucs_body diamond_problem) (init_pairs diamond_problem) of
      Some c \<Rightarrow>
        map (\<lambda>n. (state n, cost n)) (frontier c) = [(''C'', 1), (''D'', 2)]
        \<and> path_cost diamond_problem 1 ''C'' None ''D'' = Inr 2
        \<and> Tuple ''D'' 2 \<in> frontier_states c
        \<and> (case ucs_body diamond_problem c of
              Inr (Continue c') \<Rightarrow>
                map (\<lambda>n. (state n, cost n)) (frontier c') = [(''D'', 2), (''D'', 2)]
            | _ \<Rightarrow> False)
    | None \<Rightarrow> False"
    by code_simp
  moreover
  have "case after_iterations 2 (a_star_body diamond_locations diamond_problem)
              (init_pairs diamond_problem) of
        Some c \<Rightarrow>
          map (\<lambda>n. (state n, cost n)) (frontier c) = [(''C'', 6), (''D'', 11)]
          \<and> Tuple ''D'' 11 \<in> frontier_states c
          \<and> (case a_star_body diamond_locations diamond_problem c of
                Inr (Continue c') \<Rightarrow>
                  map (\<lambda>n. (state n, cost n)) (frontier c') = [(''D'', 11), (''D'', 11)]
              | _ \<Rightarrow> False)
      | None \<Rightarrow> False"
    by (simp add: eval_nat_numeral diamond_eval)
  ultimately show ?thesis
    by (rule conjI)
qed

text \<open>
  C10. The claim is that \<open>frontier_states.remove((node.state, node.cost))\<close> never raises,
  also when two frontier nodes carry the same state with equal cost. The two nodes share
  one tuple in the set: the first pop removes it and the second pop finds it missing. On
  the diamond, after four iterations the frontier holds the second node for \<open>D\<close> and
  \<open>frontier_states\<close> is empty; both searches end with \<open>KeyError\<close>.
\<close>

theorem cost_ordered_searches_remove_raises:
  "uniform_cost_search diamond_problem = Some (Inl KeyError)
   \<and> a_star_search diamond_locations diamond_problem = Some (Inl KeyError)
   \<and> (case after_iterations 4 (ucs_body diamond_problem) (init_pairs diamond_problem) of
        Some c \<Rightarrow>
          map (\<lambda>n. (state n, cost n)) (frontier c) = [(''D'', 2)]
          \<and> frontier_states c = {}
          \<and> ucs_body diamond_problem c = Inl KeyError
      | None \<Rightarrow> False)"
proof -
  have "uniform_cost_search diamond_problem = Some (Inl KeyError)"
    by code_simp
  moreover
  have "a_star_search diamond_locations diamond_problem = Some (Inl KeyError)"
    by (simp add: a_star_search_def while_frontier.simps diamond_eval)
  moreover
  have "case after_iterations 4 (ucs_body diamond_problem) (init_pairs diamond_problem) of
        Some c \<Rightarrow>
          map (\<lambda>n. (state n, cost n)) (frontier c) = [(''D'', 2)]
          \<and> frontier_states c = {}
          \<and> ucs_body diamond_problem c = Inl KeyError
      | None \<Rightarrow> False"
    by code_simp
  ultimately show ?thesis
    by simp
qed

section \<open>The heap keeps its elements\<close>

text \<open>
  Sifting moves items along a path of the tree and writes the carried item at the end, so
  the list after \<open>heappush\<close> holds the old items and the new one, and \<open>heappop\<close> returns
  one item of a non-empty list and leaves the others.
\<close>

lemma mset_update_swap:
  assumes "i < length xs" "j < length xs" "i \<noteq> j"
  shows "mset (xs[i := xs ! j, j := v]) = mset (xs[i := v])"
  using assms by (simp add: mset_update nth_list_update)

lemma siftdown_loop_length:
  "length (siftdown_loop heap newitem startpos pos) = length heap"
  by (induction heap newitem startpos pos rule: siftdown_loop.induct)
     (subst siftdown_loop.simps, simp add: Let_def)

lemma siftdown_loop_mset:
  "pos < length heap \<Longrightarrow>
   mset (siftdown_loop heap newitem startpos pos) = mset (heap[pos := newitem])"
proof (induction heap newitem startpos pos rule: siftdown_loop.induct)
  case (1 heap newitem startpos pos)
  show ?case
  proof (cases "startpos < pos \<and> node_lt newitem (heap ! ((pos - 1) div 2))")
    case True
    then have lt: "(pos - 1) div 2 < pos" by auto
    with "1.prems" have len: "(pos - 1) div 2 < length (heap[pos := heap ! ((pos - 1) div 2)])"
      by simp
    have "siftdown_loop heap newitem startpos pos =
          siftdown_loop (heap[pos := heap ! ((pos - 1) div 2)]) newitem startpos ((pos - 1) div 2)"
      using True by (subst siftdown_loop.simps) (simp add: Let_def)
    also have "mset \<dots> = mset (heap[pos := heap ! ((pos - 1) div 2), (pos - 1) div 2 := newitem])"
      using "1.IH" [OF _ refl refl _ len] True by simp
    also have "\<dots> = mset (heap[pos := newitem])"
      using lt "1.prems" by (intro mset_update_swap) auto
    finally show ?thesis .
  next
    case False
    then show ?thesis
      by (subst siftdown_loop.simps) (auto simp add: Let_def)
  qed
qed

lemma siftup_loop_props:
  "siftup_loop heap endpos pos = (heap', pos') \<Longrightarrow> endpos = length heap \<Longrightarrow> pos < length heap \<Longrightarrow>
   length heap' = length heap \<and> pos' < length heap \<and> mset (heap'[pos' := v]) = mset (heap[pos := v])"
proof (induction heap endpos pos arbitrary: heap' pos' rule: siftup_loop.induct)
  case (1 heap endpos pos)
  show ?case
  proof (cases "2 * pos + 1 < endpos")
    case False
    with "1.prems" show ?thesis
      by (subst (asm) siftup_loop.simps) (simp add: Let_def)
  next
    case True
    define cp where "cp = (if 2 * pos + 1 + 1 < endpos \<and> \<not> node_lt (heap ! (2 * pos + 1)) (heap ! (2 * pos + 1 + 1)) then 2 * pos + 1 + 1 else 2 * pos + 1)"
    have cp: "cp < length heap" "pos \<noteq> cp"
      using True "1.prems" by (auto simp: cp_def)
    have eq: "siftup_loop (heap[pos := heap ! cp]) endpos cp = (heap', pos')"
      using "1.prems"(1) True
      by (subst (asm) siftup_loop.simps) (simp add: Let_def cp_def split del: if_split cong: if_cong)
    have "length heap' = length (heap[pos := heap ! cp]) \<and> pos' < length (heap[pos := heap ! cp])
        \<and> mset (heap'[pos' := v]) = mset (heap[pos := heap ! cp, cp := v])"
      using "1.IH" [OF refl True refl _ eq] cp "1.prems" by (simp add: cp_def)
    moreover have "mset (heap[pos := heap ! cp, cp := v]) = mset (heap[pos := v])"
      using cp "1.prems" by (intro mset_update_swap) auto
    ultimately show ?thesis by simp
  qed
qed

lemma mset_heappush: "mset (heappush heap item) = add_mset item (mset heap)"
  by (simp add: heappush_def siftdown_def siftdown_loop_mset nth_append)

lemma heappop_mset:
  "heap \<noteq> [] \<Longrightarrow> \<exists>item rest. heappop heap = Inr (item, rest) \<and> mset heap = add_mset item (mset rest)"
proof -
  assume ne: "heap \<noteq> []"
  show ?thesis
  proof (cases "butlast heap = []")
    case True
    with ne have "heap = [last heap]"
      by (metis append_butlast_last_id append_Nil)
    with True ne show ?thesis
      by (auto simp: heappop_def Let_def)
  next
    case False
    define h1 where "h1 = (butlast heap)[0 := last heap]"
    have l2: "Suc 0 < length heap"
      using False by (cases heap rule: rev_cases) simp_all
    have len: "0 < length h1" using l2 by (simp add: h1_def)
    obtain heap' pos' where sl: "siftup_loop h1 (length h1) 0 = (heap', pos')"
      by (cases "siftup_loop h1 (length h1) 0")
    from siftup_loop_props [OF sl refl len, of "h1 ! 0"]
    have props: "length heap' = length h1" "pos' < length h1" "mset (heap'[pos' := h1 ! 0]) = mset h1"
      by simp_all
    have "mset (siftup h1 0) = mset h1"
      using props sl by (simp add: siftup_def Let_def siftdown_def siftdown_loop_mset)
    also have "\<dots> = add_mset (last heap) (mset (butlast heap) - {#butlast heap ! 0#})"
      using l2 by (simp add: h1_def mset_update)
    finally have "add_mset (butlast heap ! 0) (mset (siftup h1 0)) = add_mset (last heap) (mset (butlast heap))"
      using l2 by (simp add: add_mset_commute)
    moreover have "mset heap = add_mset (last heap) (mset (butlast heap))"
      using ne by (metis append_butlast_last_id mset.simps(2) mset_append add_mset_add_single union_mset_add_mset_right add.right_neutral mset.simps(1))
    ultimately show ?thesis
      using ne False l2 by (simp add: heappop_def Let_def h1_def)
  qed
qed

section \<open>Rules for the loop\<close>

text \<open>
  A loop whose iterations keep an invariant and descend in a well-founded relation ends,
  and what it returns is what the body returned or \<open>None\<close> on an empty frontier. An
  invariant of the iterations holds after any number of them.
\<close>

lemma while_frontier_rule:
  assumes wf: "wf R" and inv: "I c"
    and step: "\<And>c c'. I c \<Longrightarrow> frontier c \<noteq> [] \<Longrightarrow> body c = Inr (Continue c') \<Longrightarrow> I c' \<and> (c', c) \<in> R"
    and ret: "\<And>c n. I c \<Longrightarrow> frontier c \<noteq> [] \<Longrightarrow> body c = Inr (Return n) \<Longrightarrow> Q (Inr (Some n))"
    and err: "\<And>c e. I c \<Longrightarrow> frontier c \<noteq> [] \<Longrightarrow> body c = Inl e \<Longrightarrow> Q (Inl e)"
    and exit: "\<And>c. I c \<Longrightarrow> frontier c = [] \<Longrightarrow> Q (Inr None)"
  shows "\<exists>r. while_frontier body c = Some r \<and> Q r"
  using wf inv
proof (induction c rule: wf_induct_rule)
  case (less c)
  show ?case
  proof (cases "frontier c = []")
    case True
    with exit [OF less.prems] show ?thesis
      by (subst while_frontier.simps) simp
  next
    case False
    show ?thesis
    proof (cases "body c")
      case (Inl e)
      with False err [OF less.prems False] show ?thesis
        by (subst while_frontier.simps) simp
    next
      case (Inr st)
      show ?thesis
      proof (cases st)
        case (Return n)
        with Inr False ret [OF less.prems False] show ?thesis
          by (subst while_frontier.simps) simp
      next
        case (Continue c')
        with Inr step [OF less.prems False] have "I c'" "(c', c) \<in> R"
          by simp_all
        from less.IH [OF this(2) this(1)] Inr Continue False show ?thesis
          by (subst while_frontier.simps) simp
      qed
    qed
  qed
qed

lemma after_iterations_inv:
  assumes step: "\<And>c c'. I c \<Longrightarrow> frontier c \<noteq> [] \<Longrightarrow> body c = Inr (Continue c') \<Longrightarrow> I c'"
  shows "I c0 \<Longrightarrow> after_iterations k body c0 = Some c \<Longrightarrow> I c"
proof (induction k arbitrary: c0)
  case 0
  then show ?case by simp
next
  case (Suc k)
  from Suc.prems(2) obtain c1 where ne: "frontier c0 \<noteq> []" and b: "body c0 = Inr (Continue c1)"
    and rest: "after_iterations k body c1 = Some c"
    by (auto split: if_splits sum.splits step.splits)
  from step [OF Suc.prems(1) ne b] Suc.IH rest show ?case
    by blast
qed

section \<open>What one iteration does\<close>

text \<open>
  The \<open>for\<close> loop over the neighbours leaves \<open>explored\<close> as it is and puts new nodes in
  the frontier: in the two queue-based searches one node for each neighbour that is
  neither explored nor in \<open>frontier_states\<close>, at the left end or at the right end; in the
  two cost-ordered searches nodes for unexplored neighbours, somewhere in the heap. A
  whole iteration then takes one node out, explores its state and adds those nodes, and
  the termination measure decreases.
\<close>

lemma bfs_neighbors_spec:
  "bfs_neighbors p node nbs c = Inr c' \<Longrightarrow>
   explored c' = explored c \<and>
   (\<exists>new. frontier c' = rev new @ frontier c
      \<and> frontier_states c' = frontier_states c \<union> Bare ` state ` set new
      \<and> distinct (map state new)
      \<and> (\<forall>n \<in> set new. state n \<in> set nbs \<and> state n \<notin> explored c
            \<and> Bare (state n) \<notin> frontier_states c \<and> parent n = Some node)
      \<and> (\<forall>nb \<in> set nbs. nb \<in> explored c \<or> Bare nb \<in> frontier_states c'))"
proof (induction nbs arbitrary: c)
  case Nil
  then show ?case by auto
next
  case (Cons nb nbs)
  show ?case
  proof (cases "nb \<notin> explored c \<and> Bare nb \<notin> frontier_states c")
    case False
    with Cons.prems have "bfs_neighbors p node nbs c = Inr c'" by auto
    from Cons.IH [OF this] False show ?thesis by auto
  next
    case True
    with Cons.prems obtain pc where pc: "path_cost p (cost node) (state node) None nb = Inr pc"
      and rec: "bfs_neighbors p node nbs
               (c\<lparr>frontier := Node nb (Some nb) (Some node) pc # frontier c,
                  frontier_states := insert (Bare nb) (frontier_states c)\<rparr>) = Inr c'"
      by (auto split: sum.splits)
    from Cons.IH [OF rec] obtain new where
      ex: "explored c' = explored c"
      and fr: "frontier c' = rev new @ Node nb (Some nb) (Some node) pc # frontier c"
      and fs: "frontier_states c' = insert (Bare nb) (frontier_states c) \<union> Bare ` state ` set new"
      and di: "distinct (map state new)"
      and each: "\<forall>n \<in> set new. state n \<in> set nbs \<and> state n \<notin> explored c
            \<and> Bare (state n) \<notin> insert (Bare nb) (frontier_states c) \<and> parent n = Some node"
      and cov: "\<forall>nb \<in> set nbs. nb \<in> explored c \<or> Bare nb \<in> frontier_states c'"
      by auto
    let ?new = "Node nb (Some nb) (Some node) pc # new"
    have "frontier c' = rev ?new @ frontier c" using fr by simp
    moreover have "frontier_states c' = frontier_states c \<union> Bare ` state ` set ?new"
      using fs by auto
    moreover have "distinct (map state ?new)" using di each by auto
    moreover have "\<forall>n \<in> set ?new. state n \<in> set (nb # nbs) \<and> state n \<notin> explored c
            \<and> Bare (state n) \<notin> frontier_states c \<and> parent n = Some node"
      using each True by auto
    moreover have "\<forall>x \<in> set (nb # nbs). x \<in> explored c \<or> Bare x \<in> frontier_states c'"
      using cov fs by auto
    ultimately show ?thesis using ex by blast
  qed
qed

lemma dfs_neighbors_spec:
  "dfs_neighbors p node nbs c = Inr c' \<Longrightarrow>
   explored c' = explored c \<and>
   (\<exists>new. frontier c' = frontier c @ new
      \<and> frontier_states c' = frontier_states c \<union> Bare ` state ` set new
      \<and> distinct (map state new)
      \<and> (\<forall>n \<in> set new. state n \<in> set nbs \<and> state n \<notin> explored c
            \<and> Bare (state n) \<notin> frontier_states c \<and> parent n = Some node)
      \<and> (\<forall>nb \<in> set nbs. nb \<in> explored c \<or> Bare nb \<in> frontier_states c'))"
proof (induction nbs arbitrary: c)
  case Nil
  then show ?case by auto
next
  case (Cons nb nbs)
  show ?case
  proof (cases "nb \<notin> explored c \<and> Bare nb \<notin> frontier_states c")
    case False
    with Cons.prems have "dfs_neighbors p node nbs c = Inr c'" by auto
    from Cons.IH [OF this] False show ?thesis by auto
  next
    case True
    with Cons.prems obtain pc where pc: "path_cost p (cost node) (state node) None nb = Inr pc"
      and rec: "dfs_neighbors p node nbs
               (c\<lparr>frontier := frontier c @ [Node nb (Some nb) (Some node) pc],
                  frontier_states := insert (Bare nb) (frontier_states c)\<rparr>) = Inr c'"
      by (auto split: sum.splits)
    from Cons.IH [OF rec] obtain new where
      ex: "explored c' = explored c"
      and fr: "frontier c' = (frontier c @ [Node nb (Some nb) (Some node) pc]) @ new"
      and fs: "frontier_states c' = insert (Bare nb) (frontier_states c) \<union> Bare ` state ` set new"
      and di: "distinct (map state new)"
      and each: "\<forall>n \<in> set new. state n \<in> set nbs \<and> state n \<notin> explored c
            \<and> Bare (state n) \<notin> insert (Bare nb) (frontier_states c) \<and> parent n = Some node"
      and cov: "\<forall>nb \<in> set nbs. nb \<in> explored c \<or> Bare nb \<in> frontier_states c'"
      by auto
    let ?new = "Node nb (Some nb) (Some node) pc # new"
    have "frontier c' = frontier c @ ?new" using fr by simp
    moreover have "frontier_states c' = frontier_states c \<union> Bare ` state ` set ?new"
      using fs by auto
    moreover have "distinct (map state ?new)" using di each by auto
    moreover have "\<forall>n \<in> set ?new. state n \<in> set (nb # nbs) \<and> state n \<notin> explored c
            \<and> Bare (state n) \<notin> frontier_states c \<and> parent n = Some node"
      using each True by auto
    moreover have "\<forall>x \<in> set (nb # nbs). x \<in> explored c \<or> Bare x \<in> frontier_states c'"
      using cov fs by auto
    ultimately show ?thesis using ex by blast
  qed
qed

lemma ucs_neighbors_spec:
  "ucs_neighbors p node nbs c = Inr c' \<Longrightarrow>
   explored c' = explored c \<and>
   (\<exists>new. mset (frontier c') = mset (frontier c) + mset new
      \<and> (\<forall>n \<in> set new. state n \<in> set nbs \<and> state n \<notin> explored c))"
proof (induction nbs arbitrary: c)
  case Nil
  then show ?case by auto
next
  case (Cons nb nbs)
  show ?case
  proof (cases "nb \<notin> explored c \<and> Bare nb \<notin> frontier_states c")
    case False
    with Cons.prems have "ucs_neighbors p node nbs c = Inr c'" by auto
    from Cons.IH [OF this] show ?thesis by auto
  next
    case True
    with Cons.prems obtain cst where
      rec: "ucs_neighbors p node nbs
               (c\<lparr>frontier := heappush (frontier c) (Node nb (Some nb) (Some node) cst),
                  frontier_states := insert (Tuple nb cst) (frontier_states c)\<rparr>) = Inr c'"
      by (auto split: sum.splits)
    from Cons.IH [OF rec] obtain new where
      ex: "explored c' = explored c"
      and fr: "mset (frontier c') = add_mset (Node nb (Some nb) (Some node) cst) (mset (frontier c)) + mset new"
      and each: "\<forall>n \<in> set new. state n \<in> set nbs \<and> state n \<notin> explored c"
      by (auto simp: mset_heappush)
    let ?new = "Node nb (Some nb) (Some node) cst # new"
    have "mset (frontier c') = mset (frontier c) + mset ?new" using fr by simp
    moreover have "\<forall>n \<in> set ?new. state n \<in> set (nb # nbs) \<and> state n \<notin> explored c"
      using each True by auto
    ultimately show ?thesis using ex by blast
  qed
qed

lemma a_star_neighbors_spec:
  "a_star_neighbors locs p node nbs c = Inr c' \<Longrightarrow>
   explored c' = explored c \<and>
   (\<exists>new. mset (frontier c') = mset (frontier c) + mset new
      \<and> (\<forall>n \<in> set new. state n \<in> set nbs \<and> state n \<notin> explored c))"
proof (induction nbs arbitrary: c)
  case Nil
  then show ?case by auto
next
  case (Cons nb nbs)
  show ?case
  proof (cases "nb \<notin> explored c \<and> Bare nb \<notin> frontier_states c")
    case False
    with Cons.prems have "a_star_neighbors locs p node nbs c = Inr c'" by auto
    from Cons.IH [OF this] show ?thesis by auto
  next
    case True
    with Cons.prems obtain cst where
      rec: "a_star_neighbors locs p node nbs
               (c\<lparr>frontier := heappush (frontier c) (Node nb (Some nb) (Some node) cst),
                  frontier_states := insert (Tuple nb cst) (frontier_states c)\<rparr>) = Inr c'"
      by (auto split: sum.splits simp: Let_def)
    from Cons.IH [OF rec] obtain new where
      ex: "explored c' = explored c"
      and fr: "mset (frontier c') = add_mset (Node nb (Some nb) (Some node) cst) (mset (frontier c)) + mset new"
      and each: "\<forall>n \<in> set new. state n \<in> set nbs \<and> state n \<notin> explored c"
      by (auto simp: mset_heappush)
    let ?new = "Node nb (Some nb) (Some node) cst # new"
    have "mset (frontier c') = mset (frontier c) + mset ?new" using fr by simp
    moreover have "\<forall>n \<in> set ?new. state n \<in> set (nb # nbs) \<and> state n \<notin> explored c"
      using each True by auto
    ultimately show ?thesis using ex by blast
  qed
qed

lemma bfs_body_continue:
  assumes ne: "frontier c \<noteq> []" and b: "bfs_body p c = Inr (Continue c')"
  shows "\<exists>nbs new. frontier c' = rev new @ butlast (frontier c) \<and> queue_iteration p c c' nbs new"
proof -
  let ?node = "last (frontier c)"
  let ?c2 = "c\<lparr>frontier := butlast (frontier c),
               explored := insert (state ?node) (explored c),
               frontier_states := frontier_states c - {Bare (state ?node)}\<rparr>"
  from b have mem: "Bare (state ?node) \<in> frontier_states c" and ng: "\<not> goal_test p (state ?node)"
    by (auto simp: bfs_body_def Let_def split: if_splits)
  from b mem ng obtain nbs where nbs: "actions p (state ?node) = Inr nbs"
    and nb: "bfs_neighbors p ?node nbs ?c2 = Inr c'"
    by (auto simp: bfs_body_def Let_def split: if_splits sum.splits)
  from bfs_neighbors_spec [OF nb] mem ng nbs show ?thesis
    unfolding queue_iteration_def by simp
qed

lemma dfs_body_continue:
  assumes ne: "frontier c \<noteq> []" and b: "dfs_body p c = Inr (Continue c')"
  shows "\<exists>nbs new. frontier c' = butlast (frontier c) @ new \<and> queue_iteration p c c' nbs new"
proof -
  let ?node = "last (frontier c)"
  let ?c2 = "c\<lparr>frontier := butlast (frontier c),
               explored := insert (state ?node) (explored c),
               frontier_states := frontier_states c - {Bare (state ?node)}\<rparr>"
  from b have mem: "Bare (state ?node) \<in> frontier_states c" and ng: "\<not> goal_test p (state ?node)"
    by (auto simp: dfs_body_def Let_def split: if_splits)
  from b mem ng obtain nbs where nbs: "actions p (state ?node) = Inr nbs"
    and nb: "dfs_neighbors p ?node nbs ?c2 = Inr c'"
    by (auto simp: dfs_body_def Let_def split: if_splits sum.splits)
  from dfs_neighbors_spec [OF nb] mem ng nbs show ?thesis
    unfolding queue_iteration_def by simp
qed

lemma mset_butlast: "xs \<noteq> [] \<Longrightarrow> mset (butlast xs) = mset xs - {#last xs#}"
  by (cases xs rule: rev_cases) simp_all

lemma bfs_body_expands:
  assumes ne: "frontier c \<noteq> []" and b: "bfs_body p c = Inr (Continue c')"
  shows "expands p c c'"
proof -
  from bfs_body_continue [OF ne b] obtain nbs new where
    it: "queue_iteration p c c' nbs new" and f: "frontier c' = rev new @ butlast (frontier c)"
    by blast
  from it have a: "actions p (state (last (frontier c))) = Inr nbs"
    and e: "explored c' = insert (state (last (frontier c))) (explored c)"
    and n: "\<forall>n \<in> set new. state n \<in> set nbs
           \<and> state n \<notin> insert (state (last (frontier c))) (explored c)"
    unfolding queue_iteration_def by simp_all
  have "mset (frontier c') = mset (frontier c) - {#last (frontier c)#} + mset new"
    using f ne by (simp add: mset_butlast union_commute)
  moreover have "\<forall>n \<in> set new. state n \<notin> explored c' \<and> edge p (state (last (frontier c))) (state n)"
    using n e a by (simp add: edge_def)
  ultimately show ?thesis
    unfolding expands_def using e ne by (intro exI [of _ "last (frontier c)"] exI [of _ new]) simp
qed

lemma dfs_body_expands:
  assumes ne: "frontier c \<noteq> []" and b: "dfs_body p c = Inr (Continue c')"
  shows "expands p c c'"
proof -
  from dfs_body_continue [OF ne b] obtain nbs new where
    it: "queue_iteration p c c' nbs new" and f: "frontier c' = butlast (frontier c) @ new"
    by blast
  from it have a: "actions p (state (last (frontier c))) = Inr nbs"
    and e: "explored c' = insert (state (last (frontier c))) (explored c)"
    and n: "\<forall>n \<in> set new. state n \<in> set nbs
           \<and> state n \<notin> insert (state (last (frontier c))) (explored c)"
    unfolding queue_iteration_def by simp_all
  have "mset (frontier c') = mset (frontier c) - {#last (frontier c)#} + mset new"
    using f ne by (simp add: mset_butlast union_commute)
  moreover have "\<forall>n \<in> set new. state n \<notin> explored c' \<and> edge p (state (last (frontier c))) (state n)"
    using n e a by (simp add: edge_def)
  ultimately show ?thesis
    unfolding expands_def using e ne by (intro exI [of _ "last (frontier c)"] exI [of _ new]) simp
qed

lemma ucs_body_expands:
  assumes ne: "frontier c \<noteq> []" and b: "ucs_body p c = Inr (Continue c')"
  shows "expands p c c'"
proof -
  from heappop_mset [OF ne] obtain node heap where
    hp: "heappop (frontier c) = Inr (node, heap)" and ms: "mset (frontier c) = add_mset node (mset heap)"
    by blast
  let ?c2 = "c\<lparr>frontier := heap, explored := insert (state node) (explored c),
               frontier_states := frontier_states c - {Tuple (state node) (cost node)}\<rparr>"
  from b hp obtain nbs where nbs: "actions p (state node) = Inr nbs"
    and nb: "ucs_neighbors p node nbs ?c2 = Inr c'"
    by (auto simp: ucs_body_def Let_def split: if_splits sum.splits)
  from ucs_neighbors_spec [OF nb] obtain new where
    e: "explored c' = insert (state node) (explored c)"
    and f: "mset (frontier c') = mset heap + mset new"
    and n: "\<forall>n \<in> set new. state n \<in> set nbs \<and> state n \<notin> insert (state node) (explored c)"
    by auto
  have "node \<in># mset (frontier c)"
    unfolding ms by simp
  then have "node \<in> set (frontier c)"
    by simp
  moreover have "mset (frontier c') = mset (frontier c) - {#node#} + mset new"
    using f ms by simp
  moreover have "\<forall>n \<in> set new. state n \<notin> explored c' \<and> edge p (state node) (state n)"
    using n e nbs by (simp add: edge_def)
  ultimately show ?thesis
    unfolding expands_def using e by blast
qed

lemma a_star_body_expands:
  assumes ne: "frontier c \<noteq> []" and b: "a_star_body locs p c = Inr (Continue c')"
  shows "expands p c c'"
proof -
  from heappop_mset [OF ne] obtain node heap where
    hp: "heappop (frontier c) = Inr (node, heap)" and ms: "mset (frontier c) = add_mset node (mset heap)"
    by blast
  let ?c2 = "c\<lparr>frontier := heap, explored := insert (state node) (explored c),
               frontier_states := frontier_states c - {Tuple (state node) (cost node)}\<rparr>"
  from b hp obtain nbs where nbs: "actions p (state node) = Inr nbs"
    and nb: "a_star_neighbors locs p node nbs ?c2 = Inr c'"
    by (auto simp: a_star_body_def Let_def split: if_splits sum.splits)
  from a_star_neighbors_spec [OF nb] obtain new where
    e: "explored c' = insert (state node) (explored c)"
    and f: "mset (frontier c') = mset heap + mset new"
    and n: "\<forall>n \<in> set new. state n \<in> set nbs \<and> state n \<notin> insert (state node) (explored c)"
    by auto
  have "node \<in># mset (frontier c)"
    unfolding ms by simp
  then have "node \<in> set (frontier c)"
    by simp
  moreover have "mset (frontier c') = mset (frontier c) - {#node#} + mset new"
    using f ms by simp
  moreover have "\<forall>n \<in> set new. state n \<notin> explored c' \<and> edge p (state node) (state n)"
    using n e nbs by (simp add: edge_def)
  ultimately show ?thesis
    unfolding expands_def using e by blast
qed

lemma expands_decreases:
  assumes ex: "expands p c c'" and fin: "finite (reachable p)"
    and sub: "state ` set (frontier c) \<subseteq> reachable p"
  shows "state ` set (frontier c') \<subseteq> reachable p
         \<and> (termination_measure p c', termination_measure p c) \<in> less_than <*lex*> less_than"
proof -
  from ex obtain node new where
    nd: "node \<in> set (frontier c)"
    and e: "explored c' = insert (state node) (explored c)"
    and f: "mset (frontier c') = mset (frontier c) - {#node#} + mset new"
    and n: "\<forall>n \<in> set new. state n \<notin> explored c' \<and> edge p (state node) (state n)"
    unfolding expands_def by blast
  have sr: "state node \<in> reachable p" using nd sub by auto
  have "set (frontier c') \<subseteq> set (frontier c) \<union> set new"
  proof
    fix m assume "m \<in> set (frontier c')"
    then have "m \<in># mset (frontier c')"
      by simp
    then have "m \<in># mset (frontier c) - {#node#} + mset new"
      unfolding f .
    then show "m \<in> set (frontier c) \<union> set new"
      by (auto dest: in_diffD)
  qed
  moreover have "state ` set new \<subseteq> reachable p"
    using n sr by (auto intro: reachable.step)
  ultimately have sub': "state ` set (frontier c') \<subseteq> reachable p"
    using sub by blast
  let ?P = "\<lambda>n. state n \<in> explored c'"
  have "(termination_measure p c', termination_measure p c) \<in> less_than <*lex*> less_than"
  proof (cases "state node \<in> explored c")
    case False
    have "reachable p - explored c' \<subset> reachable p - explored c"
      using e sr False by auto
    then have "card (reachable p - explored c') < card (reachable p - explored c)"
      using fin by (intro psubset_card_mono) auto
    then show ?thesis by (simp add: termination_measure_def)
  next
    case True
    then have same: "explored c' = explored c" using e by auto
    have nn: "filter_mset ?P (mset new) = {#}"
      using n by simp
    have "length (filter ?P (frontier c')) = size (mset (filter ?P (frontier c')))"
      by (simp only: size_mset)
    also have "\<dots> = size (filter_mset ?P (mset (frontier c')))"
      by (simp only: mset_filter)
    also have "\<dots> = size (filter_mset ?P (mset (frontier c)) - {#node#})"
      using f nn True same by simp
    also have "\<dots> < size (filter_mset ?P (mset (frontier c)))"
      using nd True same by (intro size_Diff1_less) simp
    also have "\<dots> = size (mset (filter ?P (frontier c)))"
      by (simp only: mset_filter)
    also have "\<dots> = length (filter ?P (frontier c))"
      by (simp only: size_mset)
    finally show ?thesis
      using same by (simp add: termination_measure_def)
  qed
  with sub' show ?thesis by simp
qed

section \<open>The frontier and its set of states in the queue-based searches\<close>

text \<open>
  An iteration of either queue-based loop keeps \<open>frontier_states\<close> equal to the states
  of the frontier, and the states it inserts are new: they are neither in the frontier
  nor explored, and from then on they are one or the other.
\<close>

lemma image_butlast_distinct:
  "distinct (map f xs) \<Longrightarrow> xs \<noteq> [] \<Longrightarrow> f ` set (butlast xs) = f ` set xs - {f (last xs)}"
  by (cases xs rule: rev_cases) auto

lemma mirrors_init: "mirrors (init_states p)"
  by (simp add: mirrors_def init_states_def)

lemma queue_iteration_mirrors:
  assumes m: "mirrors c" and ne: "frontier c \<noteq> []"
    and it: "queue_iteration p c c' nbs new"
    and f: "set (frontier c') = set new \<union> set (butlast (frontier c))"
    and d: "distinct (map state (frontier c')) =
            (distinct (map state new) \<and> distinct (map state (butlast (frontier c)))
             \<and> state ` set new \<inter> state ` set (butlast (frontier c)) = {})"
  shows "mirrors c'
         \<and> state ` set new \<inter> (state ` set (frontier c) \<union> explored c) = {}
         \<and> state ` set (frontier c') \<union> explored c'
             = state ` set new \<union> (state ` set (frontier c) \<union> explored c)"
proof -
  let ?s = "state (last (frontier c))"
  from m have fs: "frontier_states c = Bare ` state ` set (frontier c)"
    and di: "distinct (map state (frontier c))"
    and dj: "state ` set (frontier c) \<inter> explored c = {}"
    by (simp_all add: mirrors_def)
  from it have e: "explored c' = insert ?s (explored c)"
    and fs': "frontier_states c' = (frontier_states c - {Bare ?s}) \<union> Bare ` state ` set new"
    and dn: "distinct (map state new)"
    and each: "\<forall>n \<in> set new. state n \<notin> insert ?s (explored c)
                 \<and> Bare (state n) \<notin> frontier_states c - {Bare ?s}"
    unfolding queue_iteration_def by blast+
  have bl: "state ` set (butlast (frontier c)) = state ` set (frontier c) - {?s}"
    using di ne by (rule image_butlast_distinct)
  have rest: "frontier_states c - {Bare ?s} = Bare ` state ` set (butlast (frontier c))"
    unfolding fs bl by auto
  have fresh: "state ` set new \<inter> state ` set (frontier c) = {}"
    using each fs by auto
  have "frontier_states c' = Bare ` state ` set (frontier c')"
    unfolding fs' rest f by auto
  moreover have "distinct (map state (frontier c'))"
  proof -
    have "distinct (map state (butlast (frontier c)))"
      using di by (simp add: map_butlast distinct_butlast)
    then show ?thesis
      unfolding d using dn fresh bl by auto
  qed
  moreover have "state ` set (frontier c') \<inter> explored c' = {}"
  proof -
    have "state ` set (butlast (frontier c)) \<inter> insert ?s (explored c) = {}"
      unfolding bl using dj by blast
    moreover have "state ` set new \<inter> insert ?s (explored c) = {}"
      using each by blast
    ultimately show ?thesis
      unfolding f e by blast
  qed
  moreover have "frontier c' = [] \<or> Bare (state (last (frontier c'))) \<in> frontier_states c'"
    using \<open>frontier_states c' = Bare ` state ` set (frontier c')\<close> by (cases "frontier c' = []") auto
  moreover have "state ` set new \<inter> (state ` set (frontier c) \<union> explored c) = {}"
    using fresh each by auto
  moreover have "state ` set (frontier c') \<union> explored c'
             = state ` set new \<union> (state ` set (frontier c) \<union> explored c)"
    unfolding f e using bl ne by auto
  ultimately show ?thesis
    by (simp add: mirrors_def)
qed

lemma bfs_body_mirrors:
  assumes m: "mirrors c" and ne: "frontier c \<noteq> []" and b: "bfs_body p c = Inr (Continue c')"
  shows "mirrors c'
         \<and> distinct (map state (bfs_pushed c c'))
         \<and> set (map state (bfs_pushed c c')) \<inter> (state ` set (frontier c) \<union> explored c) = {}
         \<and> state ` set (frontier c') \<union> explored c'
             = set (map state (bfs_pushed c c')) \<union> (state ` set (frontier c) \<union> explored c)"
proof -
  from bfs_body_continue [OF ne b] obtain nbs new where
    f: "frontier c' = rev new @ butlast (frontier c)" and it: "queue_iteration p c c' nbs new"
    by blast
  have "Suc (length (frontier c')) - length (frontier c) = length new"
    using f ne by (cases "frontier c") simp_all
  then have pushed: "bfs_pushed c c' = rev new"
    using f by (simp add: bfs_pushed_def)
  have dn: "distinct (map state new)"
    using it by (simp add: queue_iteration_def)
  have sf: "set (frontier c') = set new \<union> set (butlast (frontier c))"
    using f by simp
  have df: "distinct (map state (frontier c')) =
            (distinct (map state new) \<and> distinct (map state (butlast (frontier c)))
             \<and> state ` set new \<inter> state ` set (butlast (frontier c)) = {})"
    using f by (simp add: distinct_rev rev_map [symmetric])
  from queue_iteration_mirrors [OF m ne it sf df] dn show ?thesis
    unfolding pushed by (simp add: distinct_rev rev_map [symmetric])
qed

lemma dfs_body_mirrors:
  assumes m: "mirrors c" and ne: "frontier c \<noteq> []" and b: "dfs_body p c = Inr (Continue c')"
  shows "mirrors c'
         \<and> distinct (map state (dfs_pushed c c'))
         \<and> set (map state (dfs_pushed c c')) \<inter> (state ` set (frontier c) \<union> explored c) = {}
         \<and> state ` set (frontier c') \<union> explored c'
             = set (map state (dfs_pushed c c')) \<union> (state ` set (frontier c) \<union> explored c)"
proof -
  from dfs_body_continue [OF ne b] obtain nbs new where
    f: "frontier c' = butlast (frontier c) @ new" and it: "queue_iteration p c c' nbs new"
    by blast
  have pushed: "dfs_pushed c c' = new"
    using f ne by (simp add: dfs_pushed_def)
  have dn: "distinct (map state new)"
    using it by (simp add: queue_iteration_def)
  have sf: "set (frontier c') = set new \<union> set (butlast (frontier c))"
    using f by auto
  have df: "distinct (map state (frontier c')) =
            (distinct (map state new) \<and> distinct (map state (butlast (frontier c)))
             \<and> state ` set new \<inter> state ` set (butlast (frontier c)) = {})"
    using f by auto
  from queue_iteration_mirrors [OF m ne it sf df] dn show ?thesis
    unfolding pushed by simp
qed

lemma pushed_states_fresh:
  assumes step: "\<And>c c'. mirrors c \<Longrightarrow> frontier c \<noteq> [] \<Longrightarrow> body c = Inr (Continue c') \<Longrightarrow>
      mirrors c'
         \<and> distinct (map state (pushed c c'))
         \<and> set (map state (pushed c c')) \<inter> (state ` set (frontier c) \<union> explored c) = {}
         \<and> state ` set (frontier c') \<union> explored c'
             = set (map state (pushed c c')) \<union> (state ` set (frontier c) \<union> explored c)"
  shows "mirrors c \<Longrightarrow>
         distinct (pushed_states pushed k body c)
         \<and> set (pushed_states pushed k body c) \<inter> (state ` set (frontier c) \<union> explored c) = {}"
proof (induction k arbitrary: c)
  case 0
  then show ?case by simp
next
  case (Suc k)
  show ?case
  proof (cases "frontier c \<noteq> [] \<and> (\<exists>c'. body c = Inr (Continue c'))")
    case False
    then show ?thesis
      by (auto split: sum.splits step.splits)
  next
    case True
    then obtain c' where ne: "frontier c \<noteq> []" and b: "body c = Inr (Continue c')"
      by blast
    from step [OF Suc.prems ne b] have m': "mirrors c'"
      and d: "distinct (map state (pushed c c'))"
      and fr: "set (map state (pushed c c')) \<inter> (state ` set (frontier c) \<union> explored c) = {}"
      and un: "state ` set (frontier c') \<union> explored c'
             = set (map state (pushed c c')) \<union> (state ` set (frontier c) \<union> explored c)"
      by simp_all
    from Suc.IH [OF m'] have d': "distinct (pushed_states pushed k body c')"
      and fr': "set (pushed_states pushed k body c') \<inter> (state ` set (frontier c') \<union> explored c') = {}"
      by simp_all
    have "pushed_states pushed (Suc k) body c = map state (pushed c c') @ pushed_states pushed k body c'"
      using ne b by simp
    moreover have "distinct (map state (pushed c c') @ pushed_states pushed k body c')"
      using d d' fr' un by auto
    moreover have "set (map state (pushed c c') @ pushed_states pushed k body c')
        \<inter> (state ` set (frontier c) \<union> explored c) = {}"
      using fr fr' un by auto
    ultimately show ?thesis by simp
  qed
qed

text \<open>
  C9. In \<open>breadth_first_graph_search\<close> and \<open>depth_first_graph_search\<close>, at the start of
  every loop iteration (after any number \<open>k\<close> of iterations) \<open>frontier_states\<close> is the set
  of states of the frontier nodes, with one node per state, and no such state is
  explored; so the state of the node about to be popped is in \<open>frontier_states\<close> and the
  \<open>remove\<close> does not raise. The states inserted into the frontier over the run, the
  initial one included, are pairwise different: each state is inserted at most once.
\<close>

theorem queue_searches_mirror_frontier:
  "(\<forall>c. after_iterations k (bfs_body p) (init_states p) = Some c \<longrightarrow> mirrors c)
   \<and> (\<forall>c. after_iterations k (dfs_body p) (init_states p) = Some c \<longrightarrow> mirrors c)
   \<and> distinct (initial p # pushed_states bfs_pushed k (bfs_body p) (init_states p))
   \<and> distinct (initial p # pushed_states dfs_pushed k (dfs_body p) (init_states p))"
proof -
  have b: "\<forall>c. after_iterations k (bfs_body p) (init_states p) = Some c \<longrightarrow> mirrors c"
    using after_iterations_inv [of mirrors "bfs_body p", OF _ mirrors_init] bfs_body_mirrors
    by blast
  have d: "\<forall>c. after_iterations k (dfs_body p) (init_states p) = Some c \<longrightarrow> mirrors c"
    using after_iterations_inv [of mirrors "dfs_body p", OF _ mirrors_init] dfs_body_mirrors
    by blast
  have i: "initial p \<in> state ` set (frontier (init_states p)) \<union> explored (init_states p)"
    by (simp add: init_states_def)
  have "distinct (pushed_states bfs_pushed k (bfs_body p) (init_states p))
         \<and> set (pushed_states bfs_pushed k (bfs_body p) (init_states p))
             \<inter> (state ` set (frontier (init_states p)) \<union> explored (init_states p)) = {}"
    by (rule pushed_states_fresh) (rule bfs_body_mirrors, assumption+, rule mirrors_init)
  with i have pb: "distinct (initial p # pushed_states bfs_pushed k (bfs_body p) (init_states p))"
    by auto
  have "distinct (pushed_states dfs_pushed k (dfs_body p) (init_states p))
         \<and> set (pushed_states dfs_pushed k (dfs_body p) (init_states p))
             \<inter> (state ` set (frontier (init_states p)) \<union> explored (init_states p)) = {}"
    by (rule pushed_states_fresh) (rule dfs_body_mirrors, assumption+, rule mirrors_init)
  with i have pd: "distinct (initial p # pushed_states dfs_pushed k (dfs_body p) (init_states p))"
    by auto
  note pb pd
  with b d show ?thesis by simp
qed

theorem queue_searches_mirror_frontier_witness:
  "(case after_iterations 3 (bfs_body romania_problem) (init_states romania_problem) of
      Some c \<Rightarrow> mirrors c \<and> length (frontier c) = 4
    | None \<Rightarrow> False)
   \<and> (case after_iterations 3 (dfs_body romania_problem) (init_states romania_problem) of
      Some c \<Rightarrow> mirrors c \<and> length (frontier c) = 3
    | None \<Rightarrow> False)
   \<and> distinct (initial romania_problem
        # pushed_states bfs_pushed 3 (bfs_body romania_problem) (init_states romania_problem))
   \<and> distinct (initial romania_problem
        # pushed_states dfs_pushed 3 (dfs_body romania_problem) (init_states romania_problem))"
proof -
  have b: "case after_iterations 3 (bfs_body romania_problem) (init_states romania_problem) of
      Some c \<Rightarrow> length (frontier c) = 4 | None \<Rightarrow> False"
    by code_simp
  have d: "case after_iterations 3 (dfs_body romania_problem) (init_states romania_problem) of
      Some c \<Rightarrow> length (frontier c) = 3 | None \<Rightarrow> False"
    by code_simp
  from queue_searches_mirror_frontier [of 3 romania_problem] b d show ?thesis
    by (auto split: option.splits)
qed

section \<open>Termination\<close>

text \<open>
  A body that returns a node returns a frontier node whose state passes the goal test.
  When the methods of the problem do not raise on reachable states, the bodies of the two
  queue-based loops do not raise either.
\<close>

lemma bfs_body_return:
  "frontier c \<noteq> [] \<Longrightarrow> bfs_body p c = Inr (Return n) \<Longrightarrow>
   n = last (frontier c) \<and> goal_test p (state n)"
  by (auto simp: bfs_body_def Let_def split: if_splits sum.splits)

lemma dfs_body_return:
  "frontier c \<noteq> [] \<Longrightarrow> dfs_body p c = Inr (Return n) \<Longrightarrow>
   n = last (frontier c) \<and> goal_test p (state n)"
  by (auto simp: dfs_body_def Let_def split: if_splits sum.splits)

lemma ucs_body_return:
  assumes ne: "frontier c \<noteq> []" and b: "ucs_body p c = Inr (Return n)"
  shows "n \<in> set (frontier c) \<and> goal_test p (state n)"
proof -
  from heappop_mset [OF ne] obtain node heap where
    hp: "heappop (frontier c) = Inr (node, heap)" and ms: "mset (frontier c) = add_mset node (mset heap)"
    by blast
  have "node \<in># mset (frontier c)" unfolding ms by simp
  then have "node \<in> set (frontier c)" by simp
  moreover from b hp have "n = node \<and> goal_test p (state n)"
    by (auto simp: ucs_body_def Let_def split: if_splits sum.splits)
  ultimately show ?thesis by blast
qed

lemma a_star_body_return:
  assumes ne: "frontier c \<noteq> []" and b: "a_star_body locs p c = Inr (Return n)"
  shows "n \<in> set (frontier c) \<and> goal_test p (state n)"
proof -
  from heappop_mset [OF ne] obtain node heap where
    hp: "heappop (frontier c) = Inr (node, heap)" and ms: "mset (frontier c) = add_mset node (mset heap)"
    by blast
  have "node \<in># mset (frontier c)" unfolding ms by simp
  then have "node \<in> set (frontier c)" by simp
  moreover from b hp have "n = node \<and> goal_test p (state n)"
    by (auto simp: a_star_body_def Let_def split: if_splits sum.splits)
  ultimately show ?thesis by blast
qed

lemma bfs_neighbors_total:
  "\<forall>nb \<in> set nbs. \<forall>pc. \<exists>pc'. path_cost p pc (state node) None nb = Inr pc' \<Longrightarrow>
   \<exists>c'. bfs_neighbors p node nbs c = Inr c'"
proof (induction nbs arbitrary: c)
  case Nil
  then show ?case by simp
next
  case (Cons nb nbs)
  then obtain pc' where "path_cost p (cost node) (state node) None nb = Inr pc'"
    by (metis list.set_intros(1))
  with Cons show ?case by simp
qed

lemma dfs_neighbors_total:
  "\<forall>nb \<in> set nbs. \<forall>pc. \<exists>pc'. path_cost p pc (state node) None nb = Inr pc' \<Longrightarrow>
   \<exists>c'. dfs_neighbors p node nbs c = Inr c'"
proof (induction nbs arbitrary: c)
  case Nil
  then show ?case by simp
next
  case (Cons nb nbs)
  then obtain pc' where "path_cost p (cost node) (state node) None nb = Inr pc'"
    by (metis list.set_intros(1))
  with Cons show ?case by simp
qed

lemma well_behaved_state:
  assumes "well_behaved p" "s \<in> reachable p"
  shows "\<exists>nbs. actions p s = Inr nbs
           \<and> (\<forall>nb \<in> set nbs. \<forall>pc. \<exists>pc'. path_cost p pc s None nb = Inr pc')"
proof -
  from assms obtain nbs where a: "actions p s = Inr nbs"
    and pc: "\<forall>t c. edge p s t \<longrightarrow> (\<exists>c'. path_cost p c s None t = Inr c')"
    unfolding well_behaved_def by blast
  have "\<forall>nb \<in> set nbs. edge p s nb"
    using a by (simp add: edge_def)
  with a pc show ?thesis by blast
qed

lemma bfs_body_no_error:
  assumes m: "mirrors c" and ne: "frontier c \<noteq> []"
    and r: "state (last (frontier c)) \<in> reachable p" and wb: "well_behaved p"
  shows "\<exists>st. bfs_body p c = Inr st"
proof -
  from m ne have mem: "Bare (state (last (frontier c))) \<in> frontier_states c"
    by (simp add: mirrors_def)
  from well_behaved_state [OF wb r] obtain nbs where a: "actions p (state (last (frontier c))) = Inr nbs"
    and pc: "\<forall>nb \<in> set nbs. \<forall>pc. \<exists>pc'. path_cost p pc (state (last (frontier c))) None nb = Inr pc'"
    by blast
  from bfs_neighbors_total [OF pc] mem a show ?thesis
    by (simp add: bfs_body_def Let_def split: sum.splits) (metis sum.distinct(1) old.sum.exhaust)
qed

lemma dfs_body_no_error:
  assumes m: "mirrors c" and ne: "frontier c \<noteq> []"
    and r: "state (last (frontier c)) \<in> reachable p" and wb: "well_behaved p"
  shows "\<exists>st. dfs_body p c = Inr st"
proof -
  from m ne have mem: "Bare (state (last (frontier c))) \<in> frontier_states c"
    by (simp add: mirrors_def)
  from well_behaved_state [OF wb r] obtain nbs where a: "actions p (state (last (frontier c))) = Inr nbs"
    and pc: "\<forall>nb \<in> set nbs. \<forall>pc. \<exists>pc'. path_cost p pc (state (last (frontier c))) None nb = Inr pc'"
    by blast
  from dfs_neighbors_total [OF pc] mem a show ?thesis
    by (simp add: dfs_body_def Let_def split: sum.splits) (metis sum.distinct(1) old.sum.exhaust)
qed

lemma search_loop_rule:
  assumes fin: "finite (reachable p)"
    and init: "I c0" "state ` set (frontier c0) \<subseteq> reachable p"
    and step: "\<And>c c'. I c \<Longrightarrow> frontier c \<noteq> [] \<Longrightarrow> body c = Inr (Continue c') \<Longrightarrow>
                 expands p c c' \<and> I c'"
    and ret: "\<And>c n. I c \<Longrightarrow> state ` set (frontier c) \<subseteq> reachable p \<Longrightarrow> frontier c \<noteq> [] \<Longrightarrow>
                 body c = Inr (Return n) \<Longrightarrow> Q (Inr (Some n))"
    and err: "\<And>c e. I c \<Longrightarrow> state ` set (frontier c) \<subseteq> reachable p \<Longrightarrow> frontier c \<noteq> [] \<Longrightarrow>
                 body c = Inl e \<Longrightarrow> Q (Inl e)"
    and exit: "\<And>c. I c \<Longrightarrow> frontier c = [] \<Longrightarrow> Q (Inr None)"
  shows "\<exists>r. while_frontier body c0 = Some r \<and> Q r"
proof (rule while_frontier_rule
    [where I = "\<lambda>c. I c \<and> state ` set (frontier c) \<subseteq> reachable p"
       and R = "inv_image (less_than <*lex*> less_than) (termination_measure p)"])
  show "wf (inv_image (less_than <*lex*> less_than) (termination_measure p))"
    by (intro wf_inv_image wf_lex_prod wf_less_than)
  show "I c0 \<and> state ` set (frontier c0) \<subseteq> reachable p"
    using init by simp
next
  fix c c'
  assume i: "I c \<and> state ` set (frontier c) \<subseteq> reachable p" and ne: "frontier c \<noteq> []"
    and b: "body c = Inr (Continue c')"
  from step [OF _ ne b] i have "expands p c c'" "I c'" by simp_all
  with expands_decreases [OF this(1) fin] i
  show "(I c' \<and> state ` set (frontier c') \<subseteq> reachable p)
        \<and> (c', c) \<in> inv_image (less_than <*lex*> less_than) (termination_measure p)"
    by simp
next
  fix c n
  assume "I c \<and> state ` set (frontier c) \<subseteq> reachable p" "frontier c \<noteq> []" "body c = Inr (Return n)"
  then show "Q (Inr (Some n))" using ret by blast
next
  fix c e
  assume "I c \<and> state ` set (frontier c) \<subseteq> reachable p" "frontier c \<noteq> []" "body c = Inl e"
  then show "Q (Inl e)" using err by blast
next
  fix c
  assume "I c \<and> state ` set (frontier c) \<subseteq> reachable p" "frontier c = []"
  then show "Q (Inr None)" using exit by blast
qed

lemma search_loop_decreasing:
  assumes fin: "finite (reachable p)"
    and init: "state ` set (frontier c0) \<subseteq> reachable p"
    and step: "\<And>c c'. frontier c \<noteq> [] \<Longrightarrow> body c = Inr (Continue c') \<Longrightarrow> expands p c c'"
  shows "decreasing p body c0"
  unfolding decreasing_def
proof (intro allI impI)
  fix k c c'
  assume a: "after_iterations k body c0 = Some c" and ne: "frontier c \<noteq> []"
    and b: "body c = Inr (Continue c')"
  have "state ` set (frontier c) \<subseteq> reachable p"
  proof (rule after_iterations_inv [where I = "\<lambda>c. state ` set (frontier c) \<subseteq> reachable p", OF _ init a])
    fix d d'
    assume "state ` set (frontier d) \<subseteq> reachable p" "frontier d \<noteq> []" "body d = Inr (Continue d')"
    with expands_decreases [OF step fin] show "state ` set (frontier d') \<subseteq> reachable p"
      by blast
  qed
  with expands_decreases [OF step [OF ne b] fin]
  show "(termination_measure p c', termination_measure p c) \<in> less_than <*lex*> less_than"
    by blast
qed

lemma init_states_reachable: "state ` set (frontier (init_states p)) \<subseteq> reachable p"
  by (simp add: init_states_def reachable.initial)

lemma init_pairs_reachable: "state ` set (frontier (init_pairs p)) \<subseteq> reachable p"
  by (simp add: init_pairs_def reachable.initial)

lemma last_state_reachable:
  "state ` set (frontier c) \<subseteq> reachable p \<Longrightarrow> frontier c \<noteq> [] \<Longrightarrow>
   state (last (frontier c)) \<in> reachable p"
  by (meson image_subset_iff last_in_set)

text \<open>
  On a problem with finitely many reachable states every one of the four loops ends: each
  iteration decreases the measure. The two queue-based searches then return a node or
  \<open>None\<close> when the problem's methods do not raise.
\<close>

lemma searches_terminate:
  assumes fin: "finite (reachable p)"
  shows "(\<exists>r. breadth_first_graph_search p = Some r \<and> (well_behaved p \<longrightarrow> (\<exists>n. r = Inr n)))
     \<and> (\<exists>r. depth_first_graph_search p = Some r \<and> (well_behaved p \<longrightarrow> (\<exists>n. r = Inr n)))
     \<and> (\<exists>r. uniform_cost_search p = Some r)
     \<and> (\<exists>r. a_star_search locs p = Some r)
     \<and> decreasing p (bfs_body p) (init_states p)
     \<and> decreasing p (dfs_body p) (init_states p)
     \<and> decreasing p (ucs_body p) (init_pairs p)
     \<and> decreasing p (a_star_body locs p) (init_pairs p)"
proof -
  have b: "\<exists>r. breadth_first_graph_search p = Some r \<and> (well_behaved p \<longrightarrow> (\<exists>n. r = Inr n))"
    unfolding breadth_first_graph_search_def
  proof (rule search_loop_rule [where I = mirrors, OF fin mirrors_init init_states_reachable])
    fix c e
    assume "mirrors c" "state ` set (frontier c) \<subseteq> reachable p" "frontier c \<noteq> []"
      "bfs_body p c = Inl e"
    with bfs_body_no_error [of c p] last_state_reachable [of c p]
    show "well_behaved p \<longrightarrow> (\<exists>n. Inl e = Inr n)" by auto
  qed (auto intro: bfs_body_expands dest: bfs_body_mirrors)
  have d: "\<exists>r. depth_first_graph_search p = Some r \<and> (well_behaved p \<longrightarrow> (\<exists>n. r = Inr n))"
    unfolding depth_first_graph_search_def
  proof (rule search_loop_rule [where I = mirrors, OF fin mirrors_init init_states_reachable])
    fix c e
    assume "mirrors c" "state ` set (frontier c) \<subseteq> reachable p" "frontier c \<noteq> []"
      "dfs_body p c = Inl e"
    with dfs_body_no_error [of c p] last_state_reachable [of c p]
    show "well_behaved p \<longrightarrow> (\<exists>n. Inl e = Inr n)" by auto
  qed (auto intro: dfs_body_expands dest: dfs_body_mirrors)
  have u: "\<exists>r. uniform_cost_search p = Some r \<and> True"
    unfolding uniform_cost_search_def
    by (rule search_loop_rule [where I = "\<lambda>c. True", OF fin _ init_pairs_reachable])
       (auto intro: ucs_body_expands)
  have a: "\<exists>r. a_star_search locs p = Some r \<and> True"
    unfolding a_star_search_def
    by (rule search_loop_rule [where I = "\<lambda>c. True", OF fin _ init_pairs_reachable])
       (auto intro: a_star_body_expands)
  have "decreasing p (bfs_body p) (init_states p)"
    by (rule search_loop_decreasing [OF fin init_states_reachable]) (rule bfs_body_expands)
  moreover have "decreasing p (dfs_body p) (init_states p)"
    by (rule search_loop_decreasing [OF fin init_states_reachable]) (rule dfs_body_expands)
  moreover have "decreasing p (ucs_body p) (init_pairs p)"
    by (rule search_loop_decreasing [OF fin init_pairs_reachable]) (rule ucs_body_expands)
  moreover have "decreasing p (a_star_body locs p) (init_pairs p)"
    by (rule search_loop_decreasing [OF fin init_pairs_reachable]) (rule a_star_body_expands)
  ultimately show ?thesis using b d u a by simp
qed

text \<open>
  When no reachable state passes the goal test, the two queue-based searches return
  \<open>None\<close> and the two cost-ordered searches do not return a node.
\<close>

lemma unreachable_goal_not_found:
  assumes fin: "finite (reachable p)" and wb: "well_behaved p"
    and ng: "\<forall>s \<in> reachable p. \<not> goal_test p s"
  shows "breadth_first_graph_search p = Some (Inr None)
     \<and> depth_first_graph_search p = Some (Inr None)
     \<and> (\<exists>r. uniform_cost_search p = Some r \<and> (\<forall>n. r \<noteq> Inr (Some n)))
     \<and> (\<exists>r. a_star_search locs p = Some r \<and> (\<forall>n. r \<noteq> Inr (Some n)))"
proof -
  have "\<exists>r. breadth_first_graph_search p = Some r \<and> r = Inr None"
    unfolding breadth_first_graph_search_def
  proof (rule search_loop_rule [where I = mirrors, OF fin mirrors_init init_states_reachable])
    fix c e
    assume "mirrors c" "state ` set (frontier c) \<subseteq> reachable p" "frontier c \<noteq> []"
      "bfs_body p c = Inl e"
    with bfs_body_no_error [of c p] last_state_reachable [of c p] wb
    show "Inl e = Inr None" by auto
  next
    fix c n
    assume "mirrors c" "state ` set (frontier c) \<subseteq> reachable p" "frontier c \<noteq> []"
      "bfs_body p c = Inr (Return n)"
    with bfs_body_return [of c p n] last_state_reachable [of c p] ng
    show "Inr (Some n) = Inr None" by auto
  qed (auto intro: bfs_body_expands dest: bfs_body_mirrors)
  moreover have "\<exists>r. depth_first_graph_search p = Some r \<and> r = Inr None"
    unfolding depth_first_graph_search_def
  proof (rule search_loop_rule [where I = mirrors, OF fin mirrors_init init_states_reachable])
    fix c e
    assume "mirrors c" "state ` set (frontier c) \<subseteq> reachable p" "frontier c \<noteq> []"
      "dfs_body p c = Inl e"
    with dfs_body_no_error [of c p] last_state_reachable [of c p] wb
    show "Inl e = Inr None" by auto
  next
    fix c n
    assume "mirrors c" "state ` set (frontier c) \<subseteq> reachable p" "frontier c \<noteq> []"
      "dfs_body p c = Inr (Return n)"
    with dfs_body_return [of c p n] last_state_reachable [of c p] ng
    show "Inr (Some n) = Inr None" by auto
  qed (auto intro: dfs_body_expands dest: dfs_body_mirrors)
  moreover have "\<exists>r. uniform_cost_search p = Some r \<and> (\<forall>n. r \<noteq> Inr (Some n))"
    unfolding uniform_cost_search_def
  proof (rule search_loop_rule [where I = "\<lambda>c. True", OF fin _ init_pairs_reachable])
    fix c n
    assume "state ` set (frontier c) \<subseteq> reachable p" "frontier c \<noteq> []"
      "ucs_body p c = Inr (Return n)"
    with ucs_body_return [of c p n] ng
    show "\<forall>m. Inr (Some n) \<noteq> Inr (Some m)" by auto
  qed (auto intro: ucs_body_expands)
  moreover have "\<exists>r. a_star_search locs p = Some r \<and> (\<forall>n. r \<noteq> Inr (Some n))"
    unfolding a_star_search_def
  proof (rule search_loop_rule [where I = "\<lambda>c. True", OF fin _ init_pairs_reachable])
    fix c n
    assume "state ` set (frontier c) \<subseteq> reachable p" "frontier c \<noteq> []"
      "a_star_body locs p c = Inr (Return n)"
    with a_star_body_return [of c locs p n] ng
    show "\<forall>m. Inr (Some n) \<noteq> Inr (Some m)" by auto
  qed (auto intro: a_star_body_expands)
  ultimately show ?thesis by simp
qed

section \<open>Path-finding problems\<close>

text \<open>
  A \<open>PathFinder\<close> over a dictionary has finitely many reachable states, and its methods
  do not raise when every neighbour named in the dictionary is a key of it.
\<close>

lemma edge_PathFinder:
  "edge (PathFinder i g graph) s t =
     (case map_of graph s of None \<Rightarrow> False | Some nbrs \<Rightarrow> t \<in> fst ` set nbrs)"
  by (simp add: edge_def PathFinder_def subscript_def split: option.splits)

lemma reachable_PathFinder:
  "reachable (PathFinder i g graph) \<subseteq> insert i (\<Union>(s, nbrs) \<in> set graph. fst ` set nbrs)"
proof
  fix s assume "s \<in> reachable (PathFinder i g graph)"
  then show "s \<in> insert i (\<Union>(s, nbrs) \<in> set graph. fst ` set nbrs)"
  proof (induction rule: reachable.induct)
    case initial
    then show ?case by (simp add: PathFinder_def)
  next
    case (step s t)
    from step.hyps(2) obtain nbrs where "map_of graph s = Some nbrs" "t \<in> fst ` set nbrs"
      by (auto simp: edge_PathFinder split: option.splits)
    then show ?case
      by (auto dest!: map_of_SomeD)
  qed
qed

lemma finite_reachable_PathFinder: "finite (reachable (PathFinder i g graph))"
  by (rule finite_subset [OF reachable_PathFinder]) auto

lemma well_behaved_PathFinder:
  assumes i: "i \<in> fst ` set graph"
    and cl: "\<forall>(s, nbrs) \<in> set graph. fst ` set nbrs \<subseteq> fst ` set graph"
  shows "well_behaved (PathFinder i g graph)"
proof -
  have keys: "s \<in> reachable (PathFinder i g graph) \<Longrightarrow> s \<in> fst ` set graph" for s
  proof (induction rule: reachable.induct)
    case initial
    with i show ?case by (simp add: PathFinder_def)
  next
    case (step s t)
    from step.hyps(2) obtain nbrs where "map_of graph s = Some nbrs" "t \<in> fst ` set nbrs"
      by (auto simp: edge_PathFinder split: option.splits)
    then have "(s, nbrs) \<in> set graph" "t \<in> fst ` set nbrs"
      by (auto dest: map_of_SomeD)
    with cl show ?case
      by blast
  qed
  show ?thesis
    unfolding well_behaved_def
  proof (intro ballI conjI allI impI)
    fix s assume "s \<in> reachable (PathFinder i g graph)"
    from keys [OF this] obtain nbrs where "map_of graph s = Some nbrs"
      by (metis map_of_eq_None_iff not_Some_eq)
    then show "\<exists>neighbors. actions (PathFinder i g graph) s = Inr neighbors"
      by (simp add: PathFinder_def subscript_def)
  next
    fix s t c assume "edge (PathFinder i g graph) s t"
    then obtain nbrs where m: "map_of graph s = Some nbrs" and t: "t \<in> fst ` set nbrs"
      by (auto simp: edge_PathFinder split: option.splits)
    from t obtain w where "map_of nbrs t = Some w"
      by (metis map_of_eq_None_iff not_Some_eq)
    with m show "\<exists>c'. path_cost (PathFinder i g graph) c s None t = Inr c'"
      by (simp add: PathFinder_def subscript_def)
  qed
qed

lemma well_behaved_romania: "well_behaved romania_problem"
  unfolding romania_problem_def
  by (rule well_behaved_PathFinder) (simp_all add: romania_map_def)

lemma well_behaved_diamond: "well_behaved diamond_problem"
  unfolding diamond_problem_def
  by (rule well_behaved_PathFinder) (simp_all add: diamond_map_def)

lemma reachable_diamond: "reachable diamond_problem = {''A'', ''B'', ''C'', ''D''}"
proof
  show "reachable diamond_problem \<subseteq> {''A'', ''B'', ''C'', ''D''}"
    using reachable_PathFinder [of "''A''" "''E''" diamond_map]
    by (auto simp: diamond_problem_def diamond_map_def)
  have e: "edge diamond_problem ''A'' ''B''" "edge diamond_problem ''A'' ''C''"
    "edge diamond_problem ''B'' ''D''"
    by (simp_all add: diamond_problem_def edge_PathFinder diamond_map_def)
  have a: "''A'' \<in> reachable diamond_problem"
    using reachable.initial [of diamond_problem] by (simp add: diamond_problem_def PathFinder_def)
  from a e(1) have b: "''B'' \<in> reachable diamond_problem" by (rule reachable.step)
  from a e(2) have c: "''C'' \<in> reachable diamond_problem" by (rule reachable.step)
  from b e(3) have d: "''D'' \<in> reachable diamond_problem" by (rule reachable.step)
  from a b c d show "{''A'', ''B'', ''C'', ''D''} \<subseteq> reachable diamond_problem" by simp
qed

lemma bucharest_reachable: "''Bucharest'' \<in> reachable romania_problem"
proof -
  have e: "edge romania_problem ''Arad'' ''Sibiu''" "edge romania_problem ''Sibiu'' ''Fagaras''"
    "edge romania_problem ''Fagaras'' ''Bucharest''"
    by (simp_all add: romania_problem_def edge_PathFinder romania_map_def)
  have "''Arad'' \<in> reachable romania_problem"
    using reachable.initial [of romania_problem] by (simp add: romania_problem_def PathFinder_def)
  from this e(1) have "''Sibiu'' \<in> reachable romania_problem" by (rule reachable.step)
  from this e(2) have "''Fagaras'' \<in> reachable romania_problem" by (rule reachable.step)
  from this e(3) show ?thesis by (rule reachable.step)
qed

lemma bfs_diamond: "breadth_first_graph_search diamond_problem = Some (Inr None)"
  by code_simp

lemma dfs_diamond: "depth_first_graph_search diamond_problem = Some (Inr None)"
  by code_simp

lemma ucs_diamond: "uniform_cost_search diamond_problem = Some (Inl KeyError)"
  by code_simp

lemma a_star_diamond: "a_star_search diamond_locations diamond_problem = Some (Inl KeyError)"
  by (simp add: a_star_search_def while_frontier.simps diamond_eval)

text \<open>
  C7. The claim is that on a problem with finitely many reachable states, finite action
  lists and non-negative step costs, each of the four searches ends by returning a node or
  \<open>None\<close>. All four loops end (\<open>searches_terminate\<close>), but the two cost-ordered ones can
  end by raising: the diamond has four reachable states and every step costs 1, the
  breadth-first and depth-first searches return \<open>None\<close> on it, and \<open>uniform_cost_search\<close>
  and \<open>a_star_search\<close> end with the \<open>KeyError\<close> of \<open>frontier_states.remove\<close>.
\<close>

theorem cost_ordered_searches_end_by_raising:
  "finite (reachable diamond_problem)
   \<and> (\<forall>c s t. path_cost diamond_problem c s None t = Inr (c + 1)
                \<or> path_cost diamond_problem c s None t = Inl KeyError)
   \<and> breadth_first_graph_search diamond_problem = Some (Inr None)
   \<and> depth_first_graph_search diamond_problem = Some (Inr None)
   \<and> uniform_cost_search diamond_problem = Some (Inl KeyError)
   \<and> a_star_search diamond_locations diamond_problem = Some (Inl KeyError)"
proof -
  have "path_cost diamond_problem c s None t = Inr (c + 1)
        \<or> path_cost diamond_problem c s None t = Inl KeyError" for c s t
    by (simp add: diamond_problem_def PathFinder_def subscript_def diamond_map_def)
  then show ?thesis
    using bfs_diamond dfs_diamond ucs_diamond a_star_diamond
    by (simp add: reachable_diamond)
qed

text \<open>
  C8. The claim is that when no goal state is reachable each of the four searches
  exhausts its frontier and returns \<open>None\<close>, a normal return. On the diamond the goal \<open>E\<close>
  is not reachable; the breadth-first and depth-first searches return \<open>None\<close>, while
  \<open>uniform_cost_search\<close> and \<open>a_star_search\<close> raise \<open>KeyError\<close> before their frontier is
  empty.
\<close>

theorem cost_ordered_searches_raise_on_unreachable_goal:
  "(\<forall>s. goal_test diamond_problem s = (s = ''E''))
   \<and> ''E'' \<notin> reachable diamond_problem
   \<and> uniform_cost_search diamond_problem = Some (Inl KeyError)
   \<and> a_star_search diamond_locations diamond_problem = Some (Inl KeyError)
   \<and> breadth_first_graph_search diamond_problem = Some (Inr None)
   \<and> depth_first_graph_search diamond_problem = Some (Inr None)"
  using bfs_diamond dfs_diamond ucs_diamond a_star_diamond
  by (simp add: reachable_diamond) (simp add: diamond_problem_def PathFinder_def)

section \<open>Breadth-first search returns a shortest route\<close>

text \<open>
  The least number of edges to a state behaves as a distance: an edge adds at most one,
  and a state at distance \<open>k + 1\<close> has a neighbour at distance \<open>k\<close> before it. The path
  of a child node is the path of its parent followed by the child. With these the
  iterations of the breadth-first loop keep the configuration levelled.
\<close>

lemma reach_in_reachable: "reach_in p k s \<Longrightarrow> s \<in> reachable p"
  by (induction rule: reach_in.induct) (auto intro: reachable.intros)

lemma reachable_reach_in: "s \<in> reachable p \<Longrightarrow> \<exists>k. reach_in p k s"
  by (induction rule: reachable.induct) (auto intro: reach_in.intros)

lemma hops_le: "reach_in p k s \<Longrightarrow> hops p s \<le> k"
  unfolding hops_def by (rule Least_le)

lemma reach_in_hops: "s \<in> reachable p \<Longrightarrow> reach_in p (hops p s) s"
  unfolding hops_def using reachable_reach_in [of s p] by (auto intro: LeastI)

lemma hops_edge: "s \<in> reachable p \<Longrightarrow> edge p s t \<Longrightarrow> hops p t \<le> Suc (hops p s)"
  by (rule hops_le) (rule reach_in.suc, rule reach_in_hops)

lemma hops_initial: "hops p (initial p) = 0"
  using hops_le [OF reach_in.zero, of p] by simp

lemma hops_0: "s \<in> reachable p \<Longrightarrow> hops p s = 0 \<Longrightarrow> s = initial p"
  using reach_in_hops [of s p] by (auto elim: reach_in.cases)

lemma hops_predecessor:
  assumes t: "t \<in> reachable p" and d: "hops p t = Suc k"
  shows "\<exists>s. s \<in> reachable p \<and> hops p s = k \<and> edge p s t"
proof -
  from reach_in_hops [OF t] d have "reach_in p (Suc k) t" by simp
  then obtain s where r: "reach_in p k s" and e: "edge p s t"
    by (auto elim: reach_in.cases)
  from r have sr: "s \<in> reachable p" by (rule reach_in_reachable)
  from hops_edge [OF sr e] d hops_le [OF r] have "hops p s = k" by simp
  with sr e show ?thesis by blast
qed

lemma is_walk_snoc:
  "ss \<noteq> [] \<Longrightarrow> is_walk p (ss @ [t]) = (is_walk p ss \<and> edge p (last ss) t)"
  by (induction p ss rule: is_walk.induct) auto

lemma walk_reach_in:
  "is_walk p ss \<Longrightarrow> hd ss = initial p \<Longrightarrow> reach_in p (length ss - 1) (last ss)"
proof (induction ss rule: rev_induct)
  case Nil
  then show ?case by simp
next
  case (snoc t ys)
  show ?case
  proof (cases "ys = []")
    case True
    with snoc.prems show ?thesis by (simp add: reach_in.zero)
  next
    case False
    with snoc.prems have "is_walk p ys" "edge p (last ys) t" "hd ys = initial p"
      by (simp_all add: is_walk_snoc)
    with snoc.IH have "reach_in p (Suc (length ys - 1)) t"
      by (auto intro: reach_in.suc)
    with False show ?thesis by simp
  qed
qed

lemma path_child: "parent m = Some n \<Longrightarrow> path m = path n @ [m]"
  by (cases m) (simp add: path_def)

lemma path_nonempty: "path n \<noteq> []"
  by (cases n rule: path_back.cases) (simp_all add: path_def)

lemma last_path: "last (path n) = n"
  by (cases n rule: path_back.cases) (simp_all add: path_def)

lemma shortest_route_reachable:
  assumes "shortest_route p n"
  shows "state n \<in> reachable p"
proof -
  from assms have "is_walk p (map state (path n))" "hd (map state (path n)) = initial p"
    by (simp_all add: shortest_route_def)
  from walk_reach_in [OF this] have "reach_in p (length (path n) - 1) (last (map state (path n)))"
    by simp
  then show ?thesis
    using reach_in_reachable by (fastforce simp: last_map path_nonempty last_path)
qed

lemma shortest_route_root: "shortest_route p (Node (initial p) None None 0)"
  by (simp add: shortest_route_def path_def hops_initial)

lemma shortest_route_child:
  assumes n: "shortest_route p n" and par: "parent m = Some n"
    and e: "edge p (state n) (state m)" and d: "hops p (state m) = Suc (hops p (state n))"
  shows "shortest_route p m"
proof -
  have pm: "map state (path m) = map state (path n) @ [state m]"
    using path_child [OF par] by simp
  have "is_walk p (map state (path m))"
    unfolding pm using n e
    by (simp add: is_walk_snoc path_nonempty shortest_route_def last_map last_path)
  moreover have "hd (map state (path m)) = initial p"
    unfolding pm using n by (simp add: path_nonempty shortest_route_def)
  moreover have "length (path m) = Suc (hops p (state m))"
    using path_child [OF par] n d by (simp add: shortest_route_def)
  ultimately show ?thesis
    by (simp add: shortest_route_def)
qed

lemma sorted_rev_last_le:
  "sorted (rev ks) \<Longrightarrow> k \<in> set ks \<Longrightarrow> last ks \<le> (k::nat)"
  by (cases ks rule: rev_cases) (auto simp: sorted_append)

lemma levelled_init: "levelled p (init_states p)"
proof -
  have "\<forall>t \<in> reachable p. hops p t \<le> hops p (initial p) \<longrightarrow> t = initial p"
    using hops_0 by (auto simp: hops_initial)
  then show ?thesis
    using mirrors_init [of p] shortest_route_root [of p]
    by (simp add: levelled_def init_states_def)
qed

lemma levelledD:
  assumes "levelled p c"
  shows "mirrors c"
    and "\<forall>n \<in> set (frontier c). shortest_route p n"
    and "sorted (rev (map (\<lambda>n. hops p (state n)) (frontier c)))"
    and "\<forall>n \<in> set (frontier c). hops p (state n) \<le> Suc (hops p (state (last (frontier c))))"
    and "\<forall>s \<in> explored c. \<not> goal_test p s
               \<and> (\<forall>t. edge p s t \<longrightarrow> t \<in> explored c \<union> state ` set (frontier c))"
    and "\<forall>t \<in> reachable p. frontier c \<noteq> [] \<longrightarrow>
            hops p t \<le> hops p (state (last (frontier c))) \<longrightarrow>
            t \<in> explored c \<union> state ` set (frontier c)"
    and "initial p \<in> explored c \<union> state ` set (frontier c)"
  using assms unfolding levelled_def by simp_all

lemma queue_iterationD:
  assumes "queue_iteration p c c' nbs new"
  shows "Bare (state (last (frontier c))) \<in> frontier_states c"
    and "\<not> goal_test p (state (last (frontier c)))"
    and "actions p (state (last (frontier c))) = Inr nbs"
    and "explored c' = insert (state (last (frontier c))) (explored c)"
    and "frontier_states c' =
          (frontier_states c - {Bare (state (last (frontier c)))}) \<union> Bare ` state ` set new"
    and "distinct (map state new)"
    and "\<forall>n \<in> set new.
            state n \<in> set nbs
            \<and> state n \<notin> insert (state (last (frontier c))) (explored c)
            \<and> Bare (state n) \<notin> frontier_states c - {Bare (state (last (frontier c)))}
            \<and> parent n = Some (last (frontier c))"
    and "\<forall>nb \<in> set nbs.
            nb \<in> insert (state (last (frontier c))) (explored c)
            \<or> Bare nb \<in> frontier_states c'"
  using assms unfolding queue_iteration_def by blast+

lemma levelled_step:
  assumes lv: "levelled p c" and ne: "frontier c \<noteq> []"
    and b: "bfs_body p c = Inr (Continue c')"
  shows "levelled p c'"
proof -
  let ?n = "last (frontier c)"
  let ?s = "state ?n"
  let ?k = "hops p ?s"
  let ?d = "\<lambda>n. hops p (state n)"
  from bfs_body_continue [OF ne b] obtain nbs new where
    f: "frontier c' = rev new @ butlast (frontier c)" and it: "queue_iteration p c c' nbs new"
    by blast
  note lvD = levelledD [OF lv]
  have m: "mirrors c" by (rule lvD)
  have ok: "\<forall>n \<in> set (frontier c). shortest_route p n" by (rule lvD)
  have so: "sorted (rev (map ?d (frontier c)))" by (rule lvD)
  have up: "\<forall>n \<in> set (frontier c). ?d n \<le> Suc ?k" by (rule lvD)
  have cl: "\<forall>s \<in> explored c. \<not> goal_test p s
               \<and> (\<forall>t. edge p s t \<longrightarrow> t \<in> explored c \<union> state ` set (frontier c))"
    by (rule lvD)
  have lev: "\<forall>t \<in> reachable p. hops p t \<le> ?k \<longrightarrow> t \<in> explored c \<union> state ` set (frontier c)"
    using lvD(6) ne by simp
  have ini: "initial p \<in> explored c \<union> state ` set (frontier c)" by (rule lvD)
  note itD = queue_iterationD [OF it]
  have act: "actions p ?s = Inr nbs" by (rule itD)
  have ng: "\<not> goal_test p ?s" by (rule itD)
  have e: "explored c' = insert ?s (explored c)" by (rule itD)
  have each: "\<forall>n \<in> set new. state n \<in> set nbs \<and> parent n = Some ?n"
    using itD(7) by blast
  have cov: "\<forall>nb \<in> set nbs. nb \<in> insert ?s (explored c) \<or> Bare nb \<in> frontier_states c'"
    by (rule itD)
  have sf: "set (frontier c') = set new \<union> set (butlast (frontier c))"
    using f by simp
  have df: "distinct (map state (frontier c')) =
            (distinct (map state new) \<and> distinct (map state (butlast (frontier c)))
             \<and> state ` set new \<inter> state ` set (butlast (frontier c)) = {})"
    using f by (simp add: distinct_rev rev_map [symmetric])
  from queue_iteration_mirrors [OF m ne it sf df]
  have m': "mirrors c'"
    and fresh: "state ` set new \<inter> (state ` set (frontier c) \<union> explored c) = {}"
    and disc: "state ` set (frontier c') \<union> explored c'
               = state ` set new \<union> (state ` set (frontier c) \<union> explored c)"
    by simp_all
  have nin: "?n \<in> set (frontier c)" using ne by simp
  have sr: "?s \<in> reachable p"
    using ok nin by (intro shortest_route_reachable) blast
  have lo: "\<forall>n \<in> set (frontier c). ?k \<le> ?d n"
  proof
    fix n assume "n \<in> set (frontier c)"
    then have "?d n \<in> set (map ?d (frontier c))" by simp
    from sorted_rev_last_le [OF so this] ne show "?k \<le> ?d n"
      by (simp add: last_map)
  qed
  have old: "set (butlast (frontier c)) \<subseteq> set (frontier c)"
    by (auto dest: in_set_butlastD)
  have newd: "\<forall>n \<in> set new. ?d n = Suc ?k \<and> shortest_route p n"
  proof
    fix n assume n: "n \<in> set new"
    with each act have ed: "edge p ?s (state n)" and par: "parent n = Some ?n"
      by (simp_all add: edge_def)
    have tr: "state n \<in> reachable p"
      using sr ed by (rule reachable.step)
    have "\<not> hops p (state n) \<le> ?k"
      using lev tr fresh n by blast
    with hops_edge [OF sr ed] have d: "?d n = Suc ?k" by simp
    from shortest_route_child [OF _ par ed d] ok nin have "shortest_route p n" by blast
    with d show "?d n = Suc ?k \<and> shortest_route p n" by simp
  qed
  have ok': "\<forall>n \<in> set (frontier c'). shortest_route p n"
    unfolding sf using newd ok old by blast
  have so0: "sorted (rev (map ?d (butlast (frontier c))))"
  proof (cases "frontier c" rule: rev_cases)
    case Nil
    with ne show ?thesis by simp
  next
    case (snoc ys l)
    with so show ?thesis by simp
  qed
  have so': "sorted (rev (map ?d (frontier c')))"
  proof -
    have "sorted (map ?d new)"
    proof -
      have "map ?d new = replicate (length new) (Suc ?k)"
        using newd by (auto simp: map_replicate_const [symmetric] intro: map_cong)
      then show ?thesis by (simp add: sorted_replicate)
    qed
    moreover have "\<forall>a \<in> set (butlast (frontier c)). \<forall>b \<in> set new. ?d a \<le> ?d b"
      using newd up old by auto
    ultimately show ?thesis
      unfolding f using so0 by (simp add: sorted_append rev_map)
  qed
  have range': "\<forall>n \<in> set (frontier c'). ?k \<le> ?d n \<and> ?d n \<le> Suc ?k"
    unfolding sf using newd up lo old by auto
  have up': "\<forall>n \<in> set (frontier c'). ?d n \<le> Suc (?d (last (frontier c')))"
  proof (cases "frontier c' = []")
    case True
    then show ?thesis by simp
  next
    case False
    then have "last (frontier c') \<in> set (frontier c')" by simp
    with range' have "?k \<le> ?d (last (frontier c'))" by blast
    with range' show ?thesis by auto
  qed
  have fs': "frontier_states c' = Bare ` state ` set (frontier c')"
    using m' by (simp add: mirrors_def)
  have cl': "\<forall>s \<in> explored c'. \<not> goal_test p s
               \<and> (\<forall>t. edge p s t \<longrightarrow> t \<in> explored c' \<union> state ` set (frontier c'))"
  proof (intro ballI conjI allI impI)
    fix u assume "u \<in> explored c'"
    then show "\<not> goal_test p u" using e ng cl by auto
  next
    fix u t assume u: "u \<in> explored c'" and ed: "edge p u t"
    show "t \<in> explored c' \<union> state ` set (frontier c')"
    proof (cases "u = ?s")
      case True
      with ed act have "t \<in> set nbs" by (simp add: edge_def)
      with cov have "t \<in> insert ?s (explored c) \<or> Bare t \<in> frontier_states c'" by blast
      then show ?thesis unfolding fs' e by auto
    next
      case False
      with u e have "u \<in> explored c" by simp
      with cl ed have "t \<in> explored c \<union> state ` set (frontier c)" by blast
      then show ?thesis using disc by blast
    qed
  qed
  have lev': "\<forall>t \<in> reachable p. frontier c' \<noteq> [] \<longrightarrow>
                hops p t \<le> ?d (last (frontier c')) \<longrightarrow>
                t \<in> explored c' \<union> state ` set (frontier c')"
  proof (intro ballI impI)
    fix t assume t: "t \<in> reachable p" and ne': "frontier c' \<noteq> []"
      and le: "hops p t \<le> ?d (last (frontier c'))"
    from ne' have lin: "last (frontier c') \<in> set (frontier c')" by simp
    show "t \<in> explored c' \<union> state ` set (frontier c')"
    proof (cases "hops p t \<le> ?k")
      case True
      with lev t have "t \<in> explored c \<union> state ` set (frontier c)" by blast
      then show ?thesis using disc by blast
    next
      case False
      with le range' lin have ht: "hops p t = Suc ?k" and hl: "?d (last (frontier c')) = Suc ?k"
        by (auto simp: le_Suc_eq)
      from hops_predecessor [OF t ht] obtain u where
        ur: "u \<in> reachable p" and hu: "hops p u = ?k" and ed: "edge p u t"
        by blast
      from lev ur hu have "u \<in> explored c \<union> state ` set (frontier c)" by simp
      moreover have "u \<notin> state ` set (butlast (frontier c))"
      proof
        assume "u \<in> state ` set (butlast (frontier c))"
        then obtain a where a: "a \<in> set (frontier c')" and au: "state a = u"
          unfolding sf by blast
        have "?d a \<in> set (map ?d (frontier c'))" using a by simp
        from sorted_rev_last_le [OF so' this] ne' hl hu au show False
          by (simp add: last_map)
      qed
      moreover have "state ` set (frontier c) \<subseteq> insert ?s (state ` set (butlast (frontier c)))"
      proof (cases "frontier c" rule: rev_cases)
        case Nil
        with ne show ?thesis by simp
      next
        case (snoc ys l)
        then show ?thesis by auto
      qed
      ultimately have "u \<in> explored c'" unfolding e by blast
      with cl' ed show ?thesis by blast
    qed
  qed
  have ini': "initial p \<in> explored c' \<union> state ` set (frontier c')"
    using ini disc by blast
  show ?thesis
    unfolding levelled_def
    by (intro conjI) (rule m', rule ok', rule so', rule up', rule cl', rule lev', rule ini')
qed

lemma levelled_return:
  assumes lv: "levelled p c" and ne: "frontier c \<noteq> []"
    and g: "goal_test p (state (last (frontier c)))"
  shows "solution_walk p (map state (path (last (frontier c))))
         \<and> (\<forall>ss. solution_walk p ss \<longrightarrow> length (path (last (frontier c))) \<le> length ss)"
proof -
  let ?n = "last (frontier c)"
  let ?d = "\<lambda>n. hops p (state n)"
  note lvD = levelledD [OF lv]
  have nin: "?n \<in> set (frontier c)" using ne by simp
  with lvD(2) have sh: "shortest_route p ?n" by blast
  then have sw: "solution_walk p (map state (path ?n))"
    using g by (simp add: solution_walk_def shortest_route_def last_map path_nonempty last_path)
  have "\<forall>ss. solution_walk p ss \<longrightarrow> length (path ?n) \<le> length ss"
  proof (intro allI impI)
    fix ss assume s: "solution_walk p ss"
    then have w: "is_walk p ss" and h: "hd ss = initial p" and gl: "goal_test p (last ss)"
      by (simp_all add: solution_walk_def)
    from walk_reach_in [OF w h] have ri: "reach_in p (length ss - 1) (last ss)" .
    then have gr: "last ss \<in> reachable p" by (rule reach_in_reachable)
    have pos: "ss \<noteq> []" using w by auto
    have "hops p (state ?n) \<le> hops p (last ss)"
    proof (rule ccontr)
      assume "\<not> hops p (state ?n) \<le> hops p (last ss)"
      then have lt: "hops p (last ss) < hops p (state ?n)" by simp
      with lvD(6) gr ne have "last ss \<in> explored c \<union> state ` set (frontier c)" by simp
      moreover have "last ss \<notin> explored c" using lvD(5) gl by blast
      ultimately obtain a where a: "a \<in> set (frontier c)" and sa: "state a = last ss" by auto
      have "?d a \<in> set (map ?d (frontier c))" using a by simp
      from sorted_rev_last_le [OF lvD(3) this] ne lt sa show False
        by (simp add: last_map)
    qed
    also have "\<dots> \<le> length ss - 1" using ri by (rule hops_le)
    finally have "Suc (hops p (state ?n)) \<le> length ss" using pos
      by (cases ss) simp_all
    with sh show "length (path ?n) \<le> length ss"
      by (simp add: shortest_route_def)
  qed
  with sw show ?thesis by simp
qed

lemma levelled_exit:
  assumes lv: "levelled p c" and em: "frontier c = []"
  shows "\<forall>s \<in> reachable p. \<not> goal_test p s"
proof -
  note lvD = levelledD [OF lv]
  have "s \<in> reachable p \<Longrightarrow> s \<in> explored c" for s
  proof (induction rule: reachable.induct)
    case initial
    with lvD(7) em show ?case by simp
  next
    case (step s t)
    with lvD(5) em show ?case by auto
  qed
  with lvD(5) show ?thesis by blast
qed

text \<open>
  Over the graph the loop walks: on a problem with finitely many reachable states whose
  methods do not raise and on which some reachable state passes the goal test,
  \<open>breadth_first_graph_search\<close> returns a node; the states on its \<open>path()\<close> are a walk
  from the initial state to a goal state, and no such walk has fewer states. The costs of
  the steps play no part.
\<close>

lemma bfs_returns_shortest_walk:
  assumes fin: "finite (reachable p)" and wb: "well_behaved p"
    and goal: "\<exists>g \<in> reachable p. goal_test p g"
  shows "\<exists>n. breadth_first_graph_search p = Some (Inr (Some n))
           \<and> solution_walk p (map state (path n))
           \<and> (\<forall>ss. solution_walk p ss \<longrightarrow> length (path n) \<le> length ss)"
proof -
  let ?Q = "\<lambda>r. \<exists>n. r = Inr (Some n) \<and> solution_walk p (map state (path n))
           \<and> (\<forall>ss. solution_walk p ss \<longrightarrow> length (path n) \<le> length ss)"
  have "\<exists>r. while_frontier (bfs_body p) (init_states p) = Some r \<and> ?Q r"
  proof (rule search_loop_rule [where I = "levelled p", OF fin levelled_init init_states_reachable])
    fix c c'
    assume "levelled p c" "frontier c \<noteq> []" "bfs_body p c = Inr (Continue c')"
    then show "expands p c c' \<and> levelled p c'"
      by (simp add: bfs_body_expands levelled_step)
  next
    fix c n
    assume lv: "levelled p c" and ne: "frontier c \<noteq> []" and b: "bfs_body p c = Inr (Return n)"
    from bfs_body_return [OF ne b] have "n = last (frontier c)" "goal_test p (state (last (frontier c)))"
      by blast+
    with levelled_return [OF lv ne] show "?Q (Inr (Some n))" by simp
  next
    fix c e
    assume lv: "levelled p c" and sub: "state ` set (frontier c) \<subseteq> reachable p"
      and ne: "frontier c \<noteq> []" and b: "bfs_body p c = Inl e"
    from bfs_body_no_error [OF levelledD(1) [OF lv] ne last_state_reachable [OF sub ne] wb] b
    show "?Q (Inl e)" by simp
  next
    fix c
    assume "levelled p c" "frontier c = []"
    from levelled_exit [OF this] goal show "?Q (Inr None)" by blast
  qed
  then show ?thesis
    unfolding breadth_first_graph_search_def by blast
qed

section \<open>Breadth-first search and action sequences\<close>

text \<open>
  When \<open>result\<close> returns the action it is given, the action sequences of the problem
  are the walks of the graph the loop walks: the states they reach, what following them
  gives, and which of them lead to a goal are the same.
\<close>

lemma edge_applicable:
  "edge p s t = (\<exists>acts. actions p s = Inr acts \<and> t \<in> set acts)"
  by (simp add: edge_def split: sum.splits)

lemma result_reachable_eq:
  assumes a: "actions_are_successors p"
  shows "result_reachable p = reachable p"
proof (intro set_eqI iffI)
  fix s assume "s \<in> result_reachable p"
  then show "s \<in> reachable p"
  proof (induction rule: result_reachable.induct)
    case initial
    show ?case by (rule reachable.initial)
  next
    case (step s acts b t)
    from a step.hyps(2,3,4) have "t = b"
      unfolding actions_are_successors_def by fastforce
    with step.hyps(2,3) have "edge p s t"
      by (simp add: edge_applicable)
    with step.IH show ?case by (rule reachable.step)
  qed
next
  fix s assume "s \<in> reachable p"
  then show "s \<in> result_reachable p"
  proof (induction rule: reachable.induct)
    case initial
    show ?case by (rule result_reachable.initial)
  next
    case (step s t)
    from step.hyps(2) obtain acts where ac: "actions p s = Inr acts" and t: "t \<in> set acts"
      by (auto simp: edge_applicable)
    with a have "result p s t = Inr t"
      unfolding actions_are_successors_def by blast
    from result_reachable.step [OF step.IH ac t this] show ?case .
  qed
qed

lemma follow_walk:
  assumes a: "actions_are_successors p"
  shows "(follow p s as = Some t) = (is_walk p (s # as) \<and> last (s # as) = t)"
proof (induction as arbitrary: s)
  case Nil
  show ?case by auto
next
  case (Cons b as)
  show ?case
  proof (cases "edge p s b")
    case False
    then show ?thesis
      by (auto simp: edge_applicable split: sum.splits)
  next
    case True
    then obtain acts where ac: "actions p s = Inr acts" and b: "b \<in> set acts"
      by (auto simp: edge_applicable)
    with a have "result p s b = Inr b"
      unfolding actions_are_successors_def by blast
    with ac b True Cons.IH [of b] show ?thesis
      by simp
  qed
qed

lemma leads_to_goal_walk:
  assumes a: "actions_are_successors p"
  shows "leads_to_goal p as = solution_walk p (initial p # as)"
proof (cases "follow p (initial p) as")
  case None
  with follow_walk [OF a, of "initial p" as "last (initial p # as)"]
  have "\<not> is_walk p (initial p # as)" by simp
  with None show ?thesis
    by (simp add: leads_to_goal_def solution_walk_def)
next
  case (Some g)
  with follow_walk [OF a, of "initial p" as g] show ?thesis
    by (simp add: leads_to_goal_def solution_walk_def)
qed

lemma methods_return_well_behaved:
  assumes a: "actions_are_successors p"
  shows "methods_return p = well_behaved p"
  unfolding methods_return_def well_behaved_def result_reachable_eq [OF a] edge_applicable
  by (intro ball_cong refl) fastforce

lemma actions_are_successors_PathFinder: "actions_are_successors (PathFinder i g graph)"
  by (simp add: actions_are_successors_def PathFinder_def)

lemma result_reachable_go: "result_reachable go_problem = {''S'', ''G''}"
proof
  show "result_reachable go_problem \<subseteq> {''S'', ''G''}"
  proof
    fix s assume "s \<in> result_reachable go_problem"
    then show "s \<in> {''S'', ''G''}"
      by (induction rule: result_reachable.induct)
         (auto simp: go_problem_def Problem_def split: if_splits)
  qed
  have s: "''S'' \<in> result_reachable go_problem"
    using result_reachable.initial [of go_problem] by (simp add: go_problem_def Problem_def)
  have "actions go_problem ''S'' = Inr [''go'']" "result go_problem ''S'' ''go'' = Inr ''G''"
    by (simp_all add: go_problem_def Problem_def)
  from result_reachable.step [OF s this(1) _ this(2)]
  have "''G'' \<in> result_reachable go_problem" by simp
  with s show "{''S'', ''G''} \<subseteq> result_reachable go_problem" by simp
qed

text \<open>
  C5, as stated, fails on two problems with unit step costs, finitely many states and an
  action sequence leading to a goal. In \<open>go_problem\<close> the action \<open>go\<close> leads from \<open>S\<close> to
  the goal \<open>G\<close>, but the loop never calls \<open>problem.result\<close>: it takes \<open>go\<close> for a state,
  finds no actions there and returns \<open>None\<close>. In \<open>dangling_problem\<close> the road from \<open>A\<close> to
  the goal \<open>G\<close> exists, but the loop pops the neighbour \<open>B\<close> first and
  \<open>problem.actions\<close> raises \<open>KeyError\<close> on it.
\<close>

theorem bfs_ignores_result:
  "result_reachable go_problem = {''S'', ''G''}
   \<and> (\<forall>c s a t. path_cost go_problem c s a t = Inr (c + 1))
   \<and> leads_to_goal go_problem [''go'']
   \<and> breadth_first_graph_search go_problem = Some (Inr None)
   \<and> (\<forall>c s a t. path_cost dangling_problem c s a t = Inr (c + 1)
                  \<or> path_cost dangling_problem c s a t = Inl KeyError)
   \<and> leads_to_goal dangling_problem [''G'']
   \<and> breadth_first_graph_search dangling_problem = Some (Inl KeyError)"
proof -
  have "path_cost go_problem c s a t = Inr (c + 1)" for c s a t
    by (simp add: go_problem_def Problem_def)
  moreover have "leads_to_goal go_problem [''go'']"
    by (simp add: leads_to_goal_def go_problem_def Problem_def)
  moreover have "breadth_first_graph_search go_problem = Some (Inr None)"
    by (simp add: breadth_first_graph_search_def init_states_def while_frontier.simps
          bfs_body_def go_problem_def Problem_def Let_def insert_Diff_if)
  moreover have "path_cost dangling_problem c s a t = Inr (c + 1)
                  \<or> path_cost dangling_problem c s a t = Inl KeyError" for c s a t
    by (simp add: dangling_problem_def PathFinder_def subscript_def dangling_map_def)
  moreover have "leads_to_goal dangling_problem [''G'']"
    by (simp add: leads_to_goal_def dangling_problem_def PathFinder_def subscript_def
          dangling_map_def)
  moreover have "breadth_first_graph_search dangling_problem = Some (Inl KeyError)"
    by code_simp
  ultimately show ?thesis
    using result_reachable_go by simp
qed

text \<open>
  C5, amended. On a problem whose actions are the successor states themselves
  (\<open>result\<close> returns the action, as in \<open>PathFinder\<close>), with finitely many states reached
  by action sequences, whose methods return on those states, and on which some action
  sequence leads from the initial state to a goal state, \<open>breadth_first_graph_search\<close>
  returns a node: the states after the root on its \<open>path()\<close> are an action sequence
  leading from the initial state to the node's state, which passes the goal test, and
  the number of edges of the path is at most the length of any action sequence leading
  to a goal. The claim's condition that all steps cost the same is not needed.
\<close>

theorem bfs_returns_shortest_action_sequence:
  assumes succ: "actions_are_successors p"
    and fin: "finite (result_reachable p)"
    and ret: "methods_return p"
    and sol: "\<exists>as. leads_to_goal p as"
  shows "\<exists>n. breadth_first_graph_search p = Some (Inr (Some n))
           \<and> follow p (initial p) (tl (map state (path n))) = Some (state n)
           \<and> leads_to_goal p (tl (map state (path n)))
           \<and> (\<forall>as. leads_to_goal p as \<longrightarrow> length (path n) - 1 \<le> length as)"
proof -
  have fin': "finite (reachable p)"
    using fin by (simp add: result_reachable_eq [OF succ])
  have wb: "well_behaved p"
    using ret by (simp add: methods_return_well_behaved [OF succ])
  from sol obtain as where "solution_walk p (initial p # as)"
    by (auto simp: leads_to_goal_walk [OF succ])
  then have w: "is_walk p (initial p # as)" and g: "goal_test p (last (initial p # as))"
    by (simp_all add: solution_walk_def)
  from walk_reach_in [OF w] have "last (initial p # as) \<in> reachable p"
    by (auto intro: reach_in_reachable)
  with g have goal: "\<exists>g \<in> reachable p. goal_test p g" by blast
  from bfs_returns_shortest_walk [OF fin' wb goal] obtain n where
    b: "breadth_first_graph_search p = Some (Inr (Some n))"
    and sw: "solution_walk p (map state (path n))"
    and mn: "\<forall>ss. solution_walk p ss \<longrightarrow> length (path n) \<le> length ss"
    by blast
  from sw have hd: "hd (map state (path n)) = initial p"
    by (simp add: solution_walk_def)
  have shape: "map state (path n) = initial p # tl (map state (path n))"
    using hd path_nonempty [of n] by (cases "map state (path n)") auto
  have lg: "leads_to_goal p (tl (map state (path n)))"
    using sw shape by (simp add: leads_to_goal_walk [OF succ])
  have "is_walk p (initial p # tl (map state (path n)))"
    using sw shape by (simp add: solution_walk_def)
  moreover have "last (initial p # tl (map state (path n))) = state n"
    using shape path_nonempty [of n] last_path [of n] by (metis last_map map_is_Nil_conv)
  ultimately have fo: "follow p (initial p) (tl (map state (path n))) = Some (state n)"
    by (simp add: follow_walk [OF succ])
  have "\<forall>as. leads_to_goal p as \<longrightarrow> length (path n) - 1 \<le> length as"
  proof (intro allI impI)
    fix bs assume "leads_to_goal p bs"
    then have "solution_walk p (initial p # bs)"
      by (simp add: leads_to_goal_walk [OF succ])
    with mn have "length (path n) \<le> length (initial p # bs)" by blast
    then show "length (path n) - 1 \<le> length bs" by simp
  qed
  with b fo lg show ?thesis by blast
qed

theorem bfs_returns_shortest_action_sequence_witness:
  "actions_are_successors romania_problem
   \<and> finite (result_reachable romania_problem)
   \<and> methods_return romania_problem
   \<and> leads_to_goal romania_problem [''Sibiu'', ''Fagaras'', ''Bucharest'']
   \<and> (\<exists>n. breadth_first_graph_search romania_problem = Some (Inr (Some n))
           \<and> follow romania_problem (initial romania_problem) (tl (map state (path n)))
               = Some (state n)
           \<and> leads_to_goal romania_problem (tl (map state (path n)))
           \<and> (\<forall>as. leads_to_goal romania_problem as \<longrightarrow> length (path n) - 1 \<le> length as))"
proof -
  have s: "actions_are_successors romania_problem"
    unfolding romania_problem_def by (rule actions_are_successors_PathFinder)
  have "finite (reachable romania_problem)"
    unfolding romania_problem_def by (rule finite_reachable_PathFinder)
  then have f: "finite (result_reachable romania_problem)"
    by (simp add: result_reachable_eq [OF s])
  have m: "methods_return romania_problem"
    using well_behaved_romania by (simp add: methods_return_well_behaved [OF s])
  have l: "leads_to_goal romania_problem [''Sibiu'', ''Fagaras'', ''Bucharest'']"
    by (simp add: leads_to_goal_def romania_problem_def PathFinder_def subscript_def
          romania_map_def)
  then have "\<exists>as. leads_to_goal romania_problem as" ..
  from bfs_returns_shortest_action_sequence [OF s f m this] s f m l show ?thesis
    by simp
qed

end
